theory Spec2Isabelle
  imports Complex_Main "HOL-Library.Word"
begin

section \<open>Python strings\<close>

text \<open>
  The diarization normalizer and the timestamp parser of \<^verbatim>\<open>benchmark/app.py\<close> work on
  Python \<^verbatim>\<open>str\<close> values. A text is modelled as a \<^typ>\<open>string\<close>; a character stands for the
  code point of the same number (U+0000 to U+00FF). In that range the whitespace of
  \<^verbatim>\<open>str.strip\<close> and of the regular expression class \<^verbatim>\<open>\s\<close> is the set below, and the class
  \<^verbatim>\<open>\d\<close> is the ten ASCII digits.
\<close>

definition py_isspace :: "char \<Rightarrow> bool" where
  "py_isspace c =
     (let n = (of_char c :: nat)
      in (9 \<le> n \<and> n \<le> 13) \<or> (28 \<le> n \<and> n \<le> 32) \<or> n = 133 \<or> n = 160)"

definition is_digit :: "char \<Rightarrow> bool" where
  "is_digit c = (let n = (of_char c :: nat) in 48 \<le> n \<and> n \<le> 57)"

definition is_upper :: "char \<Rightarrow> bool" where
  "is_upper c = (let n = (of_char c :: nat) in 65 \<le> n \<and> n \<le> 90)"

definition digit_value :: "char \<Rightarrow> nat" where
  "digit_value c = of_char c - 48"

text \<open>\<^verbatim>\<open>s.strip()\<close>: leading and trailing whitespace removed.\<close>

definition strip :: "string \<Rightarrow> string" where
  "strip s = rev (dropWhile py_isspace (rev (dropWhile py_isspace s)))"

text \<open>\<^verbatim>\<open>s.split(c)\<close> for a one-character separator: never empty, one more piece than separators.\<close>

fun split_on :: "char \<Rightarrow> string \<Rightarrow> string list" where
  "split_on c [] = [[]]"
| "split_on c (x # xs) =
     (if x = c then [] # split_on c xs
      else (case split_on c xs of
              [] \<Rightarrow> [[x]]
            | w # ws \<Rightarrow> (x # w) # ws))"

text \<open>\<^verbatim>\<open>sep.join(ws)\<close>.\<close>

fun py_join :: "string \<Rightarrow> string list \<Rightarrow> string" where
  "py_join sep [] = []"
| "py_join sep [w] = w"
| "py_join sep (w # v # ws) = w @ sep @ py_join sep (v # ws)"

section \<open>The built-in \<^verbatim>\<open>int\<close> on a string\<close>

text \<open>
  \<^verbatim>\<open>int(s)\<close> in base ten: whitespace around the literal is skipped (for \<^verbatim>\<open>int\<close> the
  separators U+001C to U+001F do not count as whitespace), one sign may precede the digits,
  single underscores may stand between digits, and the interpreter refuses a literal of more
  than \<^verbatim>\<open>sys.get_int_max_str_digits()\<close> digits (4300 unless reconfigured). Every refusal
  is a \<^verbatim>\<open>ValueError\<close>, the value \<open>None\<close> here.
\<close>

definition int_space :: "char \<Rightarrow> bool" where
  "int_space c =
     (let n = (of_char c :: nat)
      in (9 \<le> n \<and> n \<le> 13) \<or> n = 32 \<or> n = 133 \<or> n = 160)"

definition int_max_str_digits :: nat where
  "int_max_str_digits = 4300"

definition digit_or_underscore :: "char \<Rightarrow> bool" where
  "digit_or_underscore c = (is_digit c \<or> c = CHR ''_'')"

fun double_underscore :: "string \<Rightarrow> bool" where
  "double_underscore (x # y # ys) =
     ((x = CHR ''_'' \<and> y = CHR ''_'') \<or> double_underscore (y # ys))"
| "double_underscore _ = False"

definition decimal :: "string \<Rightarrow> nat" where
  "decimal ds = foldl (\<lambda>a c. 10 * a + digit_value c) 0 ds"

definition py_int :: "string \<Rightarrow> int option" where
  "py_int s =
     (let s1 = dropWhile int_space s;
          neg = (s1 \<noteq> [] \<and> hd s1 = CHR ''-'');
          s2 = (if s1 \<noteq> [] \<and> (hd s1 = CHR ''-'' \<or> hd s1 = CHR ''+'') then tl s1 else s1);
          body = takeWhile digit_or_underscore s2;
          rest = dropWhile digit_or_underscore s2;
          digits = filter is_digit body
      in if body = [] \<or> hd body = CHR ''_'' \<or> last body = CHR ''_'' \<or> double_underscore body
            \<or> \<not> list_all int_space rest \<or> int_max_str_digits < length digits
         then None
         else Some (if neg then - int (decimal digits) else int (decimal digits)))"

section \<open>Timestamp parser\<close>

text \<open>
  \<^verbatim>\<open>parse_timestamp(ts)\<close>. The argument is \<^verbatim>\<open>None\<close> or a string; the bare
  \<^verbatim>\<open>except\<close> turns every \<^verbatim>\<open>ValueError\<close> of \<^verbatim>\<open>int\<close> into the result \<^verbatim>\<open>None\<close>.
\<close>

definition parse_timestamp :: "string option \<Rightarrow> int option" where
  "parse_timestamp ts =
     (case ts of
        None \<Rightarrow> None
      | Some t \<Rightarrow>
          if t = [] then None
          else (case split_on CHR '':'' t of
                  [a, b] \<Rightarrow>
                    (case py_int a of
                       None \<Rightarrow> None
                     | Some x \<Rightarrow>
                         (case py_int b of
                            None \<Rightarrow> None
                          | Some y \<Rightarrow> Some (x * 60 + y)))
                | [a, b, c] \<Rightarrow>
                    (case py_int a of
                       None \<Rightarrow> None
                     | Some x \<Rightarrow>
                         (case py_int b of
                            None \<Rightarrow> None
                          | Some y \<Rightarrow>
                              (case py_int c of
                                 None \<Rightarrow> None
                               | Some z \<Rightarrow> Some (x * 3600 + y * 60 + z))))
                | _ \<Rightarrow> None))"

section \<open>Regular expressions\<close>

text \<open>
  The fragment of Python's \<^verbatim>\<open>re\<close> that the six marker patterns use: literal characters,
  the classes \<^verbatim>\<open>\s\<close>, \<^verbatim>\<open>\d\<close> and \<^verbatim>\<open>[A-Z]\<close>, greedy repetition of a class
  (\<^verbatim>\<open>+\<close>, \<^verbatim>\<open>*\<close>, \<^verbatim>\<open>{m,n}\<close>), the greedy optional \<^verbatim>\<open>(?:...)?\<close> (also \<^verbatim>\<open>,?\<close>),
  and numbered capturing groups. A pattern is the list of its items in sequence.
\<close>

datatype cclass = Space | Digit | Upper

fun in_class :: "cclass \<Rightarrow> char \<Rightarrow> bool" where
  "in_class Space c = py_isspace c"
| "in_class Digit c = is_digit c"
| "in_class Upper c = is_upper c"

datatype rx =
    Chr char
  | Cls cclass
  | Rep cclass nat "nat option"
  | Opt "rx list"
  | Grp nat "rx list"

type_synonym groups = "nat \<Rightarrow> string option"

text \<open>The longest run a greedy repetition of a class can take at the head of the input.\<close>

definition run :: "cclass \<Rightarrow> nat option \<Rightarrow> string \<Rightarrow> nat" where
  "run k hi s =
     (let n = length (takeWhile (in_class k) s)
      in case hi of None \<Rightarrow> n | Some h \<Rightarrow> min h n)"

text \<open>
  Backtracking as a list of successes: every way the item (the sequence) can match at the
  head of the input, in the order in which the backtracking matcher tries them, each with
  the groups captured so far and the input that is left. A greedy repetition tries the
  longest run first and gives characters back one at a time; an optional part is tried
  before it is skipped. The match the engine reports is the first of the list.
\<close>

fun ms :: "rx \<Rightarrow> string \<Rightarrow> groups \<Rightarrow> (groups \<times> string) list"
  and mseq :: "rx list \<Rightarrow> string \<Rightarrow> groups \<Rightarrow> (groups \<times> string) list" where
  "ms (Chr x) s g = (case s of [] \<Rightarrow> [] | y # ys \<Rightarrow> if y = x then [(g, ys)] else [])"
| "ms (Cls k) s g = (case s of [] \<Rightarrow> [] | y # ys \<Rightarrow> if in_class k y then [(g, ys)] else [])"
| "ms (Rep k lo hi) s g = map (\<lambda>n. (g, drop n s)) (rev [lo ..< Suc (run k hi s)])"
| "ms (Opt rs) s g = mseq rs s g @ [(g, s)]"
| "ms (Grp i rs) s g =
     map (\<lambda>(g', s'). (g'(i \<mapsto> take (length s - length s') s), s')) (mseq rs s g)"
| "mseq [] s g = [(g, s)]"
| "mseq (r # rs) s g = concat (map (\<lambda>(g', s'). mseq rs s' g') (ms r s g))"

text \<open>The number of capturing groups of a pattern: \<^verbatim>\<open>len(match.groups())\<close>.\<close>

fun ngroups :: "rx \<Rightarrow> nat"
  and ngroups_seq :: "rx list \<Rightarrow> nat" where
  "ngroups (Chr x) = 0"
| "ngroups (Cls k) = 0"
| "ngroups (Rep k lo hi) = 0"
| "ngroups (Opt rs) = ngroups_seq rs"
| "ngroups (Grp i rs) = Suc (ngroups_seq rs)"
| "ngroups_seq [] = 0"
| "ngroups_seq (r # rs) = ngroups r + ngroups_seq rs"

text \<open>
  \<^verbatim>\<open>re.search(p, s)\<close>: the first match at the leftmost position that has one, as the text
  before the match, the groups, and the text after the match.
\<close>

fun re_search :: "rx list \<Rightarrow> string \<Rightarrow> (string \<times> groups \<times> string) option" where
  "re_search p [] =
     (case mseq p [] Map.empty of
        [] \<Rightarrow> None
      | (g, r) # _ \<Rightarrow> Some ([], g, r))"
| "re_search p (x # xs) =
     (case mseq p (x # xs) Map.empty of
        [] \<Rightarrow> (case re_search p xs of
                 None \<Rightarrow> None
               | Some (pre, g, r) \<Rightarrow> Some (x # pre, g, r))
      | (g, r) # _ \<Rightarrow> Some ([], g, r))"

text \<open>
  \<^verbatim>\<open>re.sub(p, '', s)\<close>: every match removed, left to right, the search resuming where the
  last match ended. None of the six patterns matches the empty string (each holds the word
  Speaker), so the rules of \<^verbatim>\<open>re.sub\<close> for empty matches are not modelled: the last branch
  returns the input as it is.
\<close>

function re_sub :: "rx list \<Rightarrow> string \<Rightarrow> string" where
  "re_sub p s =
     (case re_search p s of
        None \<Rightarrow> s
      | Some (pre, g, r) \<Rightarrow> if length r < length s then pre @ re_sub p r else s)"
  by pat_completeness auto
termination
  by (relation "measure (\<lambda>(p, s). length s)") auto

declare re_sub.simps [simp del]

section \<open>Diarization normalizer\<close>

text \<open>
  The list \<^verbatim>\<open>patterns\<close> of \<^verbatim>\<open>parse_gemini_diarization\<close>, in the order of the source:
  \<^verbatim>\<open>\[Speaker\s+([A-Z]),?\s*(\d{1,2}:\d{2}(?::\d{2})?)\]\<close>,
  \<^verbatim>\<open>\*\*Speaker\s+([A-Z])\s*\((\d{1,2}:\d{2}(?::\d{2})?)\):\*\*\<close>,
  \<^verbatim>\<open>Speaker\s+([A-Z])\s*\((\d{1,2}:\d{2}(?::\d{2})?)\):\<close>,
  \<^verbatim>\<open>\[Speaker\s+([A-Z])\]\<close>,
  \<^verbatim>\<open>\*\*Speaker\s+([A-Z]):\*\*\<close>,
  \<^verbatim>\<open>Speaker\s+([A-Z]):\<close>.
\<close>

definition lit :: "string \<Rightarrow> rx list" where
  "lit s = map Chr s"

definition clock :: "rx list" where
  "clock = [Rep Digit 1 (Some 2), Chr CHR '':'', Rep Digit 2 (Some 2),
            Opt [Chr CHR '':'', Rep Digit 2 (Some 2)]]"

definition patterns :: "rx list list" where
  "patterns =
     [lit ''[Speaker'' @ [Rep Space 1 None, Grp 1 [Cls Upper], Opt [Chr CHR '',''],
                          Rep Space 0 None, Grp 2 clock] @ lit '']'',
      lit ''**Speaker'' @ [Rep Space 1 None, Grp 1 [Cls Upper], Rep Space 0 None]
        @ lit ''('' @ [Grp 2 clock] @ lit ''):**'',
      lit ''Speaker'' @ [Rep Space 1 None, Grp 1 [Cls Upper], Rep Space 0 None]
        @ lit ''('' @ [Grp 2 clock] @ lit ''):'',
      lit ''[Speaker'' @ [Rep Space 1 None, Grp 1 [Cls Upper]] @ lit '']'',
      lit ''**Speaker'' @ [Rep Space 1 None, Grp 1 [Cls Upper]] @ lit '':**'',
      lit ''Speaker'' @ [Rep Space 1 None, Grp 1 [Cls Upper]] @ lit '':'']"

record segment =
  seg_speaker :: string
  seg_text :: string
  seg_start :: "int option"
  seg_end :: "int option"

text \<open>Python's truth value of a variable that holds \<^verbatim>\<open>None\<close> or a string.\<close>

definition truthy :: "string option \<Rightarrow> bool" where
  "truthy v = (case v of None \<Rightarrow> False | Some s \<Rightarrow> s \<noteq> [])"

text \<open>\<^verbatim>\<open>f"{v}"\<close> for a group: the text of the group, or the word None.\<close>

definition fmt :: "string option \<Rightarrow> string" where
  "fmt v = (case v of None \<Rightarrow> ''None'' | Some s \<Rightarrow> s)"

text \<open>
  The loop \<^verbatim>\<open>for pattern in patterns\<close> on one stripped line: the values of
  \<^verbatim>\<open>speaker_found\<close>, \<^verbatim>\<open>time_found\<close> and \<^verbatim>\<open>line\<close> when the loop is left.
\<close>

fun match_patterns :: "rx list list \<Rightarrow> string \<Rightarrow> string option \<times> string option \<times> string" where
  "match_patterns [] line = (None, None, line)"
| "match_patterns (p # ps) line =
     (case re_search p line of
        None \<Rightarrow> match_patterns ps line
      | Some (pre, g, r) \<Rightarrow>
          (Some (''Speaker '' @ fmt (g 1)),
           (if 1 < ngroups_seq p \<and> truthy (g 2) then g 2 else None),
           strip (re_sub p line)))"

text \<open>The variables of the line loop.\<close>

record parse_state =
  current_speaker :: "string option"
  current_text :: "string list"
  current_time :: "string option"
  segments :: "segment list"

definition init_state :: parse_state where
  "init_state = \<lparr>current_speaker = None, current_text = [], current_time = None, segments = []\<rparr>"

text \<open>
  \<^verbatim>\<open>if current_speaker and current_text: segments.append({...})\<close>, the list
  \<^verbatim>\<open>segments\<close> afterwards.
\<close>

definition close_segment :: "parse_state \<Rightarrow> segment list" where
  "close_segment st =
     (case current_speaker st of
        None \<Rightarrow> segments st
      | Some sp \<Rightarrow>
          if sp \<noteq> [] \<and> current_text st \<noteq> []
          then segments st @
                 [\<lparr>seg_speaker = sp,
                   seg_text = strip (py_join '' '' (current_text st)),
                   seg_start = parse_timestamp (current_time st),
                   seg_end = None\<rparr>]
          else segments st)"

text \<open>One turn of \<^verbatim>\<open>for line in lines\<close>.\<close>

definition process_line :: "parse_state \<Rightarrow> string \<Rightarrow> parse_state" where
  "process_line st raw =
     (let line = strip raw
      in if line = [] then st
         else (case match_patterns patterns line of
                 (speaker_found, time_found, line') \<Rightarrow>
                   if truthy speaker_found
                   then \<lparr>current_speaker = speaker_found,
                         current_text = (if line' \<noteq> [] then [line'] else []),
                         current_time = time_found,
                         segments = close_segment st\<rparr>
                   else if truthy (current_speaker st)
                   then st\<lparr>current_text := current_text st @ [line']\<rparr>
                   else st))"

text \<open>The list \<^verbatim>\<open>segments\<close> before the merge pass.\<close>

definition raw_segments :: "string \<Rightarrow> segment list" where
  "raw_segments text = close_segment (foldl process_line init_state (split_on (CHR 0x0A) text))"

text \<open>The merge pass: one turn of \<^verbatim>\<open>for seg in segments\<close>, and the loop.\<close>

definition merge_step :: "segment list \<Rightarrow> segment \<Rightarrow> segment list" where
  "merge_step merged seg =
     (if merged \<noteq> [] \<and> seg_speaker (last merged) = seg_speaker seg
      then butlast merged @
             [(last merged)\<lparr>seg_text := seg_text (last merged) @ '' '' @ seg_text seg\<rparr>]
      else merged @ [seg])"

definition merge_segments :: "segment list \<Rightarrow> segment list" where
  "merge_segments segs = foldl merge_step [] segs"

text \<open>
  The end-time pass: one turn of \<^verbatim>\<open>for i, seg in enumerate(merged_segments)\<close>, and the
  loop over the indices.
\<close>

definition end_step :: "segment list \<Rightarrow> nat \<Rightarrow> segment list" where
  "end_step merged i =
     (if i + 1 < length merged \<and> seg_start (merged ! (i + 1)) \<noteq> None
      then merged[i := (merged ! i)\<lparr>seg_end := seg_start (merged ! (i + 1))\<rparr>]
      else merged)"

definition end_times :: "segment list \<Rightarrow> segment list" where
  "end_times merged = foldl end_step merged [0 ..< length merged]"

definition parse_gemini_diarization :: "string \<Rightarrow> segment list" where
  "parse_gemini_diarization text = end_times (merge_segments (raw_segments text))"

section \<open>Cache key\<close>

text \<open>
  \<^verbatim>\<open>get_cache_key\<close> encodes its key text with \<^verbatim>\<open>str.encode()\<close>, UTF-8 in strict mode,
  which is not defined on every Python string: a string may hold a lone surrogate
  (U+D800 to U+DFFF; \<^verbatim>\<open>json.loads\<close> of the request body yields one for an escape such as
  \<^verbatim>\<open>"\ud800"\<close>), and the encoder raises \<^verbatim>\<open>UnicodeEncodeError\<close> there. So the texts of
  this function are lists of code points, numbers up to 0x10FFFF.
\<close>

type_synonym pystr = "nat list"

datatype py_error = ValueError string | UnicodeEncodeError | OSError | TimeoutExpired

definition is_surrogate :: "nat \<Rightarrow> bool" where
  "is_surrogate c = (0xD800 \<le> c \<and> c \<le> 0xDFFF)"

definition utf8_char :: "nat \<Rightarrow> 8 word list option" where
  "utf8_char c =
     (if c < 0x80 then Some [of_nat c]
      else if c < 0x800 then Some [of_nat (0xC0 + c div 64), of_nat (0x80 + c mod 64)]
      else if is_surrogate c then None
      else if c < 0x10000
      then Some [of_nat (0xE0 + c div 4096), of_nat (0x80 + c div 64 mod 64),
                 of_nat (0x80 + c mod 64)]
      else Some [of_nat (0xF0 + c div 262144), of_nat (0x80 + c div 4096 mod 64),
                 of_nat (0x80 + c div 64 mod 64), of_nat (0x80 + c mod 64)])"

text \<open>\<^verbatim>\<open>s.encode()\<close>: the bytes, or \<open>None\<close> for \<^verbatim>\<open>UnicodeEncodeError\<close>.\<close>

fun encode :: "pystr \<Rightarrow> 8 word list option" where
  "encode [] = Some []"
| "encode (c # cs) =
     (case utf8_char c of
        None \<Rightarrow> None
      | Some b \<Rightarrow> (case encode cs of None \<Rightarrow> None | Some bs \<Rightarrow> Some (b @ bs)))"

subsection \<open>\<^verbatim>\<open>hashlib.sha256\<close>\<close>

text \<open>
  The digest of the standard (FIPS 180-4) on a list of bytes, and its hexadecimal form. The
  round constants are the first 32 bits of the fractional parts of the cube roots of the
  first 64 primes, the initial state those of the square roots of the first 8 primes.
\<close>

definition rotr :: "nat \<Rightarrow> 32 word \<Rightarrow> 32 word" where
  "rotr n x = word_rotr n x"

definition ch :: "32 word \<Rightarrow> 32 word \<Rightarrow> 32 word \<Rightarrow> 32 word" where
  "ch x y z = xor (and x y) (and (not x) z)"

definition maj :: "32 word \<Rightarrow> 32 word \<Rightarrow> 32 word \<Rightarrow> 32 word" where
  "maj x y z = xor (xor (and x y) (and x z)) (and y z)"

definition bsig0 :: "32 word \<Rightarrow> 32 word" where
  "bsig0 x = xor (xor (rotr 2 x) (rotr 13 x)) (rotr 22 x)"

definition bsig1 :: "32 word \<Rightarrow> 32 word" where
  "bsig1 x = xor (xor (rotr 6 x) (rotr 11 x)) (rotr 25 x)"

definition ssig0 :: "32 word \<Rightarrow> 32 word" where
  "ssig0 x = xor (xor (rotr 7 x) (rotr 18 x)) (drop_bit 3 x)"

definition ssig1 :: "32 word \<Rightarrow> 32 word" where
  "ssig1 x = xor (xor (rotr 17 x) (rotr 19 x)) (drop_bit 10 x)"

definition sha_k :: "32 word list" where
  "sha_k =
     [1116352408, 1899447441, 3049323471, 3921009573, 961987163, 1508970993,
      2453635748, 2870763221, 3624381080, 310598401, 607225278, 1426881987,
      1925078388, 2162078206, 2614888103, 3248222580, 3835390401, 4022224774,
      264347078, 604807628, 770255983, 1249150122, 1555081692, 1996064986,
      2554220882, 2821834349, 2952996808, 3210313671, 3336571891, 3584528711,
      113926993, 338241895, 666307205, 773529912, 1294757372, 1396182291,
      1695183700, 1986661051, 2177026350, 2456956037, 2730485921, 2820302411,
      3259730800, 3345764771, 3516065817, 3600352804, 4094571909, 275423344,
      430227734, 506948616, 659060556, 883997877, 958139571, 1322822218,
      1537002063, 1747873779, 1955562222, 2024104815, 2227730452, 2361852424,
      2428436474, 2756734187, 3204031479, 3329325298]"

definition sha_h0 :: "32 word list" where
  "sha_h0 =
     [1779033703, 3144134277, 1013904242, 2773480762,
      1359893119, 2600822924, 528734635, 1541459225]"

text \<open>Padding: the byte 0x80, zeros up to 56 modulo 64, the bit length in eight bytes.\<close>

definition be_bytes :: "nat \<Rightarrow> nat \<Rightarrow> 8 word list" where
  "be_bytes k n = map (\<lambda>i. of_nat (n div 256 ^ i mod 256)) (rev [0 ..< k])"

definition sha_pad :: "8 word list \<Rightarrow> 8 word list" where
  "sha_pad msg =
     msg @ [0x80] @ replicate ((119 - length msg mod 64) mod 64) 0
       @ be_bytes 8 (8 * length msg)"

definition be_word :: "8 word list \<Rightarrow> 32 word" where
  "be_word bs = foldl (\<lambda>a b. push_bit 8 a + ucast b) 0 bs"

fun words_of :: "nat \<Rightarrow> 8 word list \<Rightarrow> 32 word list" where
  "words_of 0 bs = []"
| "words_of (Suc n) bs = be_word (take 4 bs) # words_of n (drop 4 bs)"

fun schedule :: "nat \<Rightarrow> 32 word list \<Rightarrow> 32 word list" where
  "schedule 0 w = w"
| "schedule (Suc n) w =
     schedule n
       (w @ [ssig1 (w ! (length w - 2)) + w ! (length w - 7)
              + ssig0 (w ! (length w - 15)) + w ! (length w - 16)])"

definition sha_round :: "32 word list \<Rightarrow> 32 word \<times> 32 word \<Rightarrow> 32 word list" where
  "sha_round v kw =
     (case v of
        [a, b, c, d, e, f, g, h] \<Rightarrow>
          (let t1 = h + bsig1 e + ch e f g + fst kw + snd kw;
               t2 = bsig0 a + maj a b c
           in [t1 + t2, a, b, c, d + t1, e, f, g])
      | _ \<Rightarrow> v)"

definition sha_block :: "32 word list \<Rightarrow> 8 word list \<Rightarrow> 32 word list" where
  "sha_block hs block =
     map2 (+) hs (foldl sha_round hs (zip sha_k (schedule 48 (words_of 16 block))))"

fun sha_blocks :: "nat \<Rightarrow> 32 word list \<Rightarrow> 8 word list \<Rightarrow> 32 word list" where
  "sha_blocks 0 hs bs = hs"
| "sha_blocks (Suc n) hs bs = sha_blocks n (sha_block hs (take 64 bs)) (drop 64 bs)"

definition sha256 :: "8 word list \<Rightarrow> 32 word list" where
  "sha256 msg = (let p = sha_pad msg in sha_blocks (length p div 64) sha_h0 p)"

definition hex_char :: "nat \<Rightarrow> char" where
  "hex_char n = ''0123456789abcdef'' ! (n mod 16)"

definition hex_word :: "32 word \<Rightarrow> string" where
  "hex_word w = map (\<lambda>i. hex_char (unat w div 16 ^ i)) (rev [0 ..< 8])"

definition hexdigest :: "32 word list \<Rightarrow> string" where
  "hexdigest hs = concat (map hex_word hs)"

subsection \<open>\<^verbatim>\<open>get_cache_key\<close>\<close>

text \<open>
  What the function reads from outside: \<^verbatim>\<open>str(Path(audio_path).stat().st_mtime)\<close>. The
  file system is a function from a path to that text (the printed form of a float, ASCII
  characters), or to \<open>None\<close> where \<^verbatim>\<open>stat\<close> raises; the bare \<^verbatim>\<open>except\<close> of the source
  turns every such failure into the empty text.
\<close>

type_synonym file_times = "pystr \<Rightarrow> string option"

definition or_empty :: "pystr option \<Rightarrow> pystr" where
  "or_empty v = (case v of None \<Rightarrow> [] | Some s \<Rightarrow> s)"

definition key_data :: "file_times \<Rightarrow> pystr \<Rightarrow> pystr \<Rightarrow> pystr option \<Rightarrow> pystr option \<Rightarrow> pystr" where
  "key_data fs audio_path model language prompt =
     (let mtime = (case fs audio_path of None \<Rightarrow> [] | Some t \<Rightarrow> map of_char t)
      in audio_path @ [0x7C] @ mtime @ [0x7C] @ model @ [0x7C] @ or_empty language
           @ [0x7C] @ or_empty prompt)"

definition get_cache_key ::
    "file_times \<Rightarrow> pystr \<Rightarrow> pystr \<Rightarrow> pystr option \<Rightarrow> pystr option \<Rightarrow> py_error + string" where
  "get_cache_key fs audio_path model language prompt =
     (case encode (key_data fs audio_path model language prompt) of
        None \<Rightarrow> Inl UnicodeEncodeError
      | Some bytes \<Rightarrow> Inr (take 16 (hexdigest (sha256 bytes))))"

text \<open>A file system in which no path can be read.\<close>

definition no_files :: file_times where
  "no_files p = None"

section \<open>Compression planner\<close>

text \<open>
  \<^verbatim>\<open>compress_audio_for_openai\<close> (and its copy \<^verbatim>\<open>compress_audio\<close> in
  \<^verbatim>\<open>test_all_models.py\<close>). Sizes and durations are Python floats; they are modelled as
  real numbers, so rounding, infinities and NaN are outside the model. What the function
  meets outside itself is a record: the size \<^verbatim>\<open>stat\<close> reports (\<open>None\<close> where it raises),
  what \<^verbatim>\<open>float(result.stdout.strip())\<close> yields on the output of \<^verbatim>\<open>ffprobe\<close> (\<open>None\<close>
  where the call or the conversion raises), and how the run of \<^verbatim>\<open>ffmpeg\<close> ends.
\<close>

datatype run_result = Exited int string | Timeout

record media =
  st_size :: "nat option"
  probe :: "real option"
  ffmpeg :: run_result
  compressed_path :: string

text \<open>What the function does to the outside, in order.\<close>

datatype action = Mkdir | Run_ffmpeg string int string

text \<open>\<^verbatim>\<open>int(x)\<close> on a float: truncation towards zero.\<close>

definition py_trunc :: "real \<Rightarrow> int" where
  "py_trunc x = (if 0 \<le> x then \<lfloor>x\<rfloor> else \<lceil>x\<rceil>)"

text \<open>\<^verbatim>\<open>get_audio_duration\<close>: every failure is the duration \<^verbatim>\<open>0.0\<close>.\<close>

definition get_audio_duration :: "media \<Rightarrow> real" where
  "get_audio_duration m = (case probe m of None \<Rightarrow> 0 | Some d \<Rightarrow> d)"

text \<open>
  The two lines that compute \<^verbatim>\<open>target_kbps\<close>, the same in both functions:
  \<^verbatim>\<open>int((target_mb * 8 * 1024) / duration)\<close>, then \<^verbatim>\<open>max(32, min(target_kbps, 128))\<close>.
\<close>

definition target_kbps :: "real \<Rightarrow> real \<Rightarrow> int" where
  "target_kbps target_mb duration =
     max 32 (min (py_trunc ((target_mb * 8 * 1024) / duration)) 128)"

text \<open>
  The body shared by the two functions, which differ in the text of the error for a
  duration that is not positive. The result is the returned path or the exception, with
  the actions performed.
\<close>

definition compress_with :: "string \<Rightarrow> media \<Rightarrow> string \<Rightarrow> real \<Rightarrow> (py_error + string) \<times> action list" where
  "compress_with msg m audio_path target_mb =
     (case st_size m of
        None \<Rightarrow> (Inl OSError, [])
      | Some bytes \<Rightarrow>
          if real bytes / (1024 * 1024) \<le> target_mb then (Inr audio_path, [])
          else if get_audio_duration m \<le> 0 then (Inl (ValueError msg), [])
          else (let kbps = target_kbps target_mb (get_audio_duration m);
                    acts = [Mkdir, Run_ffmpeg audio_path kbps (compressed_path m)]
                in case ffmpeg m of
                     Timeout \<Rightarrow> (Inl TimeoutExpired, acts)
                   | Exited code err \<Rightarrow>
                       if code \<noteq> 0
                       then (Inl (ValueError (''Compression failed: '' @ take 200 err)), acts)
                       else (Inr (compressed_path m), acts)))"

definition compress_audio_for_openai :: "media \<Rightarrow> string \<Rightarrow> real \<Rightarrow> (py_error + string) \<times> action list" where
  "compress_audio_for_openai =
     compress_with ''Could not determine audio duration for compression''"


section \<open>Auxiliary notions for the proofs\<close>

text \<open>The segment at index \<open>i\<close> after the end-time pass, read off the list before the pass.\<close>

definition with_end :: "segment list \<Rightarrow> nat \<Rightarrow> segment" where
  "with_end xs i =
     (if i + 1 < length xs \<and> seg_start (xs ! (i + 1)) \<noteq> None
      then (xs ! i)\<lparr>seg_end := seg_start (xs ! (i + 1))\<rparr> else xs ! i)"

text \<open>Whether a group of the given number occurs in an item, in a sequence.\<close>

fun has_group :: "nat \<Rightarrow> rx \<Rightarrow> bool"
  and has_group_seq :: "nat \<Rightarrow> rx list \<Rightarrow> bool" where
  "has_group i (Chr x) = False"
| "has_group i (Cls k) = False"
| "has_group i (Rep k lo hi) = False"
| "has_group i (Opt rs) = has_group_seq i rs"
| "has_group i (Grp j rs) = (i = j \<or> has_group_seq i rs)"
| "has_group_seq i [] = False"
| "has_group_seq i (r # rs) = (has_group i r \<or> has_group_seq i rs)"

text \<open>
  The shape the six patterns share: group 1 is \<^verbatim>\<open>([A-Z])\<close>, an item of the top-level
  sequence, and no other item holds a group of that number.
\<close>

fun letter_group :: "rx list \<Rightarrow> bool" where
  "letter_group [] = False"
| "letter_group (r # rs) =
     (if r = Grp 1 [Cls Upper] then \<not> has_group_seq 1 rs
      else \<not> has_group 1 r \<and> letter_group rs)"

text \<open>A speaker label of the form Speaker X, with X one of the letters A to Z.\<close>

definition speaker_label :: "string \<Rightarrow> bool" where
  "speaker_label sp = (\<exists>c. is_upper c \<and> sp = ''Speaker '' @ [c])"

text \<open>What holds of the variables of the line loop after every turn.\<close>

definition state_ok :: "parse_state \<Rightarrow> bool" where
  "state_ok st =
     ((\<forall>seg\<in>set (segments st). seg_end seg = None \<and> speaker_label (seg_speaker seg))
      \<and> (\<forall>sp. current_speaker st = Some sp \<longrightarrow> speaker_label sp))"

text \<open>A file system that knows one file, and a request for it.\<close>

definition one_file :: file_times where
  "one_file p = (if p = map of_char ''/a.m4a'' then Some ''1700000000.5'' else None)"

section \<open>Properties of the timestamp parser\<close>
























section \<open>Properties of the merge and end-time passes\<close>

subsection \<open>Merge pass\<close>

lemma merge_segments_snoc: "merge_segments (segs @ [s]) = merge_step (merge_segments segs) s"
  by (simp add: merge_segments_def)

lemma merge_step_speakers:
  "map seg_speaker (merge_step merged s) =
     (if merged \<noteq> [] \<and> seg_speaker (last merged) = seg_speaker s
      then map seg_speaker merged else map seg_speaker merged @ [seg_speaker s])"
proof (cases "merged \<noteq> [] \<and> seg_speaker (last merged) = seg_speaker s")
  case True
  then have "merged = butlast merged @ [last merged]" by simp
  then have "map seg_speaker merged = map seg_speaker (butlast merged) @ [seg_speaker (last merged)]"
    by (metis list.simps(8,9) map_append)
  with True show ?thesis by (simp add: merge_step_def)
next
  case False
  then show ?thesis by (auto simp: merge_step_def)
qed

lemma merge_step_nonempty: "merge_step merged s \<noteq> []"
  by (simp add: merge_step_def)

lemma merge_step_last_speaker: "seg_speaker (last (merge_step merged s)) = seg_speaker s"
  by (simp add: merge_step_def)

lemma merge_segments_nonempty: "segs \<noteq> [] \<Longrightarrow> merge_segments segs \<noteq> []"
  by (induction segs rule: rev_induct) (simp_all add: merge_segments_snoc merge_step_nonempty)

lemma merge_segments_empty: "merge_segments [] = []"
  by (simp add: merge_segments_def)

lemma merge_segments_last_speaker:
  "segs \<noteq> [] \<Longrightarrow> seg_speaker (last (merge_segments segs)) = seg_speaker (last segs)"
  by (induction segs rule: rev_induct) (simp_all add: merge_segments_snoc merge_step_last_speaker)

lemma merge_step_distinct_adj:
  assumes "distinct_adj (map seg_speaker merged)"
  shows "distinct_adj (map seg_speaker (merge_step merged s))"
proof (cases "merged \<noteq> [] \<and> seg_speaker (last merged) = seg_speaker s")
  case True
  with assms show ?thesis by (simp add: merge_step_speakers)
next
  case False
  with assms show ?thesis
    by (auto simp: merge_step_speakers distinct_adj_append_iff last_map)
qed

lemma merge_segments_distinct_adj: "distinct_adj (map seg_speaker (merge_segments segs))"
  by (induction segs rule: rev_induct)
     (simp_all add: merge_segments_empty merge_segments_snoc merge_step_distinct_adj)

lemma merge_step_set_speakers:
  "seg_speaker ` set (merge_step merged s) \<subseteq> seg_speaker ` set merged \<union> {seg_speaker s}"
proof -
  have "set (map seg_speaker (merge_step merged s)) \<subseteq> set (map seg_speaker merged) \<union> {seg_speaker s}"
    unfolding merge_step_speakers by auto
  then show ?thesis by simp
qed

lemma merge_segments_set_speakers:
  "seg_speaker ` set (merge_segments segs) \<subseteq> seg_speaker ` set segs"
proof (induction segs rule: rev_induct)
  case Nil
  then show ?case by (simp add: merge_segments_empty)
next
  case (snoc s segs)
  have "seg_speaker ` set (merge_segments (segs @ [s]))
          \<subseteq> seg_speaker ` set (merge_segments segs) \<union> {seg_speaker s}"
    unfolding merge_segments_snoc by (rule merge_step_set_speakers)
  also have "\<dots> \<subseteq> seg_speaker ` set segs \<union> {seg_speaker s}"
    using snoc.IH by (rule Un_mono) (rule subset_refl)
  also have "\<dots> = seg_speaker ` set (segs @ [s])"
    by simp
  finally show ?case .
qed

lemma merge_step_ends:
  assumes "\<forall>x\<in>set merged. seg_end x = None" and "seg_end s = None"
  shows "\<forall>x\<in>set (merge_step merged s). seg_end x = None"
proof (cases "merged \<noteq> [] \<and> seg_speaker (last merged) = seg_speaker s")
  case True
  then have "last merged \<in> set merged" by simp
  moreover have "set (butlast merged) \<subseteq> set merged" by (auto dest: in_set_butlastD)
  ultimately show ?thesis using assms True by (auto simp: merge_step_def)
next
  case False
  with assms show ?thesis by (auto simp: merge_step_def)
qed

lemma merge_segments_ends:
  "\<forall>x\<in>set segs. seg_end x = None \<Longrightarrow> \<forall>x\<in>set (merge_segments segs). seg_end x = None"
proof (induction segs rule: rev_induct)
  case Nil
  then show ?case by (simp add: merge_segments_empty)
next
  case (snoc s segs)
  then have "\<forall>x\<in>set (merge_segments segs). seg_end x = None" "seg_end s = None" by auto
  then show ?case unfolding merge_segments_snoc by (rule merge_step_ends)
qed

text \<open>What the merge pass does with the next raw segment, in terms of the raw segment before it.\<close>

lemma merge_segments_same_speaker:
  assumes "segs \<noteq> []" and "seg_speaker (last segs) = seg_speaker s"
  shows "merge_segments (segs @ [s]) =
           butlast (merge_segments segs) @
             [(last (merge_segments segs))
                \<lparr>seg_text := seg_text (last (merge_segments segs)) @ '' '' @ seg_text s\<rparr>]"
  using assms merge_segments_nonempty[OF assms(1)] merge_segments_last_speaker[OF assms(1)]
  by (simp add: merge_segments_snoc merge_step_def)

lemma merge_segments_other_speaker:
  assumes "segs = [] \<or> seg_speaker (last segs) \<noteq> seg_speaker s"
  shows "merge_segments (segs @ [s]) = merge_segments segs @ [s]"
proof (cases "segs = []")
  case True
  then show ?thesis by (simp add: merge_segments_def merge_step_def)
next
  case False
  with assms merge_segments_last_speaker[OF False] show ?thesis
    by (simp add: merge_segments_snoc merge_step_def)
qed

subsection \<open>End-time pass\<close>

lemma end_steps:
  "k \<le> length xs \<Longrightarrow>
     length (foldl end_step xs [0 ..< k]) = length xs
     \<and> (\<forall>i < length xs. foldl end_step xs [0 ..< k] ! i = (if i < k then with_end xs i else xs ! i))"
proof (induction k)
  case 0
  then show ?case by simp
next
  case (Suc k)
  let ?ys = "foldl end_step xs [0 ..< k]"
  from Suc have len: "length ?ys = length xs"
    and nth: "\<And>i. i < length xs \<Longrightarrow> ?ys ! i = (if i < k then with_end xs i else xs ! i)"
    by auto
  have step: "foldl end_step xs [0 ..< Suc k] = end_step ?ys k" by simp
  from Suc.prems have k: "k < length xs" by simp
  have yk: "?ys ! k = xs ! k" using nth[OF k] by simp
  have yk1: "Suc k < length xs \<Longrightarrow> ?ys ! Suc k = xs ! Suc k" using nth[of "Suc k"] by simp
  have es: "end_step ?ys k = ?ys[k := with_end xs k]"
  proof (cases "Suc k < length xs \<and> seg_start (xs ! Suc k) \<noteq> None")
    case True
    with len yk yk1 show ?thesis by (simp add: end_step_def with_end_def)
  next
    case False
    then have "with_end xs k = ?ys ! k" using yk by (auto simp: with_end_def)
    moreover from False len yk1 have "end_step ?ys k = ?ys" by (auto simp: end_step_def)
    ultimately show ?thesis by simp
  qed
  show ?case
    unfolding step es using len nth k by (auto simp: nth_list_update)
qed

lemma end_times_length: "length (end_times xs) = length xs"
  using end_steps[of "length xs" xs] by (simp add: end_times_def)

lemma end_times_nth: "i < length xs \<Longrightarrow> end_times xs ! i = with_end xs i"
  using end_steps[of "length xs" xs] by (simp add: end_times_def)

lemma end_times_speakers: "map seg_speaker (end_times xs) = map seg_speaker xs"
  by (rule nth_equalityI) (auto simp: end_times_length end_times_nth with_end_def)

lemma end_times_starts: "map seg_start (end_times xs) = map seg_start xs"
  by (rule nth_equalityI) (auto simp: end_times_length end_times_nth with_end_def)

lemma end_times_texts: "map seg_text (end_times xs) = map seg_text xs"
  by (rule nth_equalityI) (auto simp: end_times_length end_times_nth with_end_def)

lemma end_times_end:
  assumes "\<forall>x\<in>set xs. seg_end x = None" and "i < length xs"
  shows "seg_end (end_times xs ! i) = (if Suc i < length xs then seg_start (xs ! Suc i) else None)"
  using assms by (auto simp: end_times_nth with_end_def)

section \<open>Properties of the marker patterns\<close>

subsection \<open>Groups of a match\<close>

lemma ms_other_groups:
  "(g', s') \<in> set (ms r s g) \<Longrightarrow> \<not> has_group i r \<Longrightarrow> g' i = g i"
  "(g', s') \<in> set (mseq rs s g) \<Longrightarrow> \<not> has_group_seq i rs \<Longrightarrow> g' i = g i"
proof (induction r s g and rs s g arbitrary: g' s' and g' s' rule: ms_mseq.induct)
  case (1 x s g)
  then show ?case by (auto split: list.splits if_splits)
next
  case (2 k s g)
  then show ?case by (auto split: list.splits if_splits)
next
  case (3 k lo hi s g)
  then show ?case by auto
next
  case (4 rs s g)
  then show ?case by auto
next
  case (5 j rs s g)
  from "5.prems" obtain g1 where g1: "(g1, s') \<in> set (mseq rs s g)"
    and g': "g' = g1(j \<mapsto> take (length s - length s') s)"
    by auto
  from "5.prems" have "i \<noteq> j" "\<not> has_group_seq i rs" by auto
  with "5.IH"[OF g1] g' show ?case by simp
next
  case (6 s g)
  then show ?case by simp
next
  case (7 r rs s g)
  from "7.prems" obtain g1 s1 where a: "(g1, s1) \<in> set (ms r s g)"
    and b: "(g', s') \<in> set (mseq rs s1 g1)"
    by auto
  from "7.prems" have n: "\<not> has_group i r" "\<not> has_group_seq i rs" by auto
  from "7.IH"(1)[OF a n(1)] "7.IH"(2)[OF a refl b n(2)] show ?case by simp
qed

lemma letter_group_captured:
  "letter_group p \<Longrightarrow> (g', s') \<in> set (mseq p s g) \<Longrightarrow> \<exists>c. is_upper c \<and> g' 1 = Some [c]"
proof (induction p arbitrary: s g)
  case Nil
  then show ?case by simp
next
  case (Cons r rs)
  from Cons.prems(2) obtain g1 s1 where a: "(g1, s1) \<in> set (ms r s g)"
    and b: "(g', s') \<in> set (mseq rs s1 g1)"
    by auto
  show ?case
  proof (cases "r = Grp 1 [Cls Upper]")
    case True
    with a obtain c where c: "is_upper c" "g1 1 = Some [c]"
      by (auto split: list.splits if_splits)
    from True Cons.prems(1) have "\<not> has_group_seq 1 rs" by simp
    from ms_other_groups(2)[OF b this] c show ?thesis by auto
  next
    case False
    with Cons.prems(1) have "letter_group rs" by simp
    from Cons.IH[OF this b] show ?thesis .
  qed
qed

lemma re_search_match:
  "re_search p s = Some (pre, g, r) \<Longrightarrow> \<exists>s'. (g, r) \<in> set (mseq p s' Map.empty)"
proof (induction s arbitrary: pre)
  case Nil
  then show ?case by (auto split: list.splits intro: exI[of _ "[]"])
next
  case (Cons x xs)
  show ?case
  proof (cases "mseq p (x # xs) Map.empty")
    case Nil
    with Cons.prems obtain pre' where "re_search p xs = Some (pre', g, r)"
      by (auto split: option.splits)
    from Cons.IH[OF this] show ?thesis .
  next
    case (Cons a as)
    with Cons.prems have "a = (g, r)" by (cases a) auto
    with Cons have "(g, r) \<in> set (mseq p (x # xs) Map.empty)" by simp
    then show ?thesis by blast
  qed
qed

lemma patterns_letter_group: "\<forall>p\<in>set patterns. letter_group p"
  by (simp add: patterns_def lit_def clock_def)

lemma match_patterns_label:
  assumes "\<forall>p\<in>set ps. letter_group p" and "match_patterns ps line = (Some sp, t, l)"
  shows "speaker_label sp"
  using assms
proof (induction ps)
  case Nil
  then show ?case by simp
next
  case (Cons p ps)
  show ?case
  proof (cases "re_search p line")
    case None
    with Cons show ?thesis by simp
  next
    case (Some m)
    obtain pre g r where m: "m = (pre, g, r)" by (cases m) auto
    from Some m Cons.prems(2) have sp: "sp = ''Speaker '' @ fmt (g 1)" by simp
    from Some m re_search_match obtain s' where "(g, r) \<in> set (mseq p s' Map.empty)" by blast
    with Cons.prems(1) letter_group_captured[of p g r s' Map.empty]
    obtain c where "is_upper c" "g 1 = Some [c]" by auto
    with sp show ?thesis by (auto simp: speaker_label_def fmt_def)
  qed
qed

lemma match_patterns_none:
  "\<forall>p\<in>set ps. re_search p line = None \<Longrightarrow> match_patterns ps line = (None, None, line)"
  by (induction ps) auto

subsection \<open>The line loop\<close>

lemma close_segment_ok:
  "state_ok st \<Longrightarrow> \<forall>seg\<in>set (close_segment st). seg_end seg = None \<and> speaker_label (seg_speaker seg)"
  by (auto simp: state_ok_def close_segment_def split: option.splits)

lemma init_state_ok: "state_ok init_state"
  by (simp add: state_ok_def init_state_def)

lemma process_line_ok:
  assumes "state_ok st"
  shows "state_ok (process_line st raw)"
proof (cases "strip raw = []")
  case True
  with assms show ?thesis by (simp add: process_line_def)
next
  case False
  obtain sf tf l where m: "match_patterns patterns (strip raw) = (sf, tf, l)"
    by (cases "match_patterns patterns (strip raw)") auto
  show ?thesis
  proof (cases "truthy sf")
    case True
    then obtain sp where sp: "sf = Some sp" by (cases sf) (auto simp: truthy_def)
    from match_patterns_label[OF patterns_letter_group m[unfolded sp]] have "speaker_label sp" .
    with False m True sp close_segment_ok[OF assms] show ?thesis
      by (simp add: process_line_def state_ok_def)
  next
    case nt: False
    with False m assms show ?thesis
      by (simp add: process_line_def state_ok_def)
  qed
qed

lemma foldl_process_line_ok: "state_ok st \<Longrightarrow> state_ok (foldl process_line st ls)"
  by (induction ls arbitrary: st) (simp_all add: process_line_ok)

lemma raw_segments_ok:
  "\<forall>seg\<in>set (raw_segments tx). seg_end seg = None \<and> speaker_label (seg_speaker seg)"
  unfolding raw_segments_def
  by (rule close_segment_ok) (rule foldl_process_line_ok, rule init_state_ok)

lemma parse_speakers_subset:
  "seg_speaker ` set (parse_gemini_diarization tx) \<subseteq> seg_speaker ` set (raw_segments tx)"
proof -
  have "seg_speaker ` set (parse_gemini_diarization tx)
          = set (map seg_speaker (end_times (merge_segments (raw_segments tx))))"
    by (simp add: parse_gemini_diarization_def)
  also have "\<dots> = seg_speaker ` set (merge_segments (raw_segments tx))"
    by (simp add: end_times_speakers)
  also have "\<dots> \<subseteq> seg_speaker ` set (raw_segments tx)"
    by (rule merge_segments_set_speakers)
  finally show ?thesis .
qed

lemma parse_speaker_label:
  assumes "seg \<in> set (parse_gemini_diarization tx)"
  shows "speaker_label (seg_speaker seg)"
proof -
  from assms have "seg_speaker seg \<in> seg_speaker ` set (parse_gemini_diarization tx)"
    by (rule imageI)
  with parse_speakers_subset[of tx] have "seg_speaker seg \<in> seg_speaker ` set (raw_segments tx)"
    by (rule subsetD)
  then obtain r where r: "r \<in> set (raw_segments tx)" "seg_speaker seg = seg_speaker r"
    by (rule imageE)
  from raw_segments_ok[of tx, rule_format, OF r(1)] r(2) show ?thesis by simp
qed

lemma upper_set: "{c. is_upper c} = char_of ` {65 ..< 91 :: nat}"
proof (rule set_eqI)
  fix c :: char
  show "c \<in> {c. is_upper c} \<longleftrightarrow> c \<in> char_of ` {65 ..< 91 :: nat}"
  proof
    assume "c \<in> {c. is_upper c}"
    then have "(of_char c :: nat) \<in> {65 ..< 91}" by (simp add: is_upper_def Let_def)
    then have "char_of (of_char c :: nat) \<in> char_of ` {65 ..< 91 :: nat}" by (rule imageI)
    then show "c \<in> char_of ` {65 ..< 91 :: nat}" by simp
  next
    assume "c \<in> char_of ` {65 ..< 91 :: nat}"
    then obtain n :: nat where n: "c = char_of n" "65 \<le> n" "n < 91" by auto
    then have "(of_char c :: nat) = n" by simp
    with n show "c \<in> {c. is_upper c}" by (simp add: is_upper_def Let_def)
  qed
qed

lemma card_upper: "card {c. is_upper c} = 26"
proof -
  have "inj_on (char_of :: nat \<Rightarrow> char) {65 ..< 91}"
  proof (rule inj_onI)
    fix x y :: nat
    assume a: "x \<in> {65 ..< 91}" "y \<in> {65 ..< 91}" "(char_of x :: char) = char_of y"
    from a(3) have "(of_char (char_of x :: char) :: nat) = of_char (char_of y :: char)" by simp
    with a(1,2) show "x = y" by simp
  qed
  then have "card (char_of ` {65 ..< 91 :: nat} :: char set) = card {65 ..< 91 :: nat}"
    by (rule card_image)
  then show ?thesis by (simp add: upper_set)
qed

lemma finite_upper: "finite {c. is_upper c}"
  by (simp add: upper_set)

lemma parse_labels_card: "card (seg_speaker ` set (parse_gemini_diarization tx)) \<le> 26"
proof -
  have "seg_speaker ` set (parse_gemini_diarization tx)
          \<subseteq> (\<lambda>c. ''Speaker '' @ [c]) ` {c. is_upper c}"
  proof
    fix sp
    assume "sp \<in> seg_speaker ` set (parse_gemini_diarization tx)"
    then obtain seg where "seg \<in> set (parse_gemini_diarization tx)" "sp = seg_speaker seg"
      by (rule imageE)
    with parse_speaker_label[of seg tx] show "sp \<in> (\<lambda>c. ''Speaker '' @ [c]) ` {c. is_upper c}"
      unfolding speaker_label_def by blast
  qed
  then have "card (seg_speaker ` set (parse_gemini_diarization tx))
               \<le> card ((\<lambda>c. ''Speaker '' @ [c]) ` {c. is_upper c})"
    by (rule card_mono[OF finite_imageI[OF finite_upper]])
  also have "\<dots> \<le> card {c. is_upper c}"
    by (rule card_image_le[OF finite_upper])
  finally show ?thesis by (simp add: card_upper)
qed

subsection \<open>A match survives more input behind it\<close>

lemma run_le_length: "run k hi s \<le> length s"
proof -
  have "length (takeWhile (in_class k) s) \<le> length s" by (rule length_takeWhile_le)
  then show ?thesis by (cases hi) (auto simp: run_def Let_def)
qed

lemma run_append: "run k hi s \<le> run k hi (s @ t)"
proof -
  have "length (takeWhile (in_class k) s) \<le> length s" by (rule length_takeWhile_le)
  then have "length (takeWhile (in_class k) s) \<le> length (takeWhile (in_class k) (s @ t))"
    by (simp add: takeWhile_append)
  then show ?thesis by (cases hi) (auto simp: run_def Let_def)
qed

lemma ms_extend:
  "(g', s') \<in> set (ms r s g) \<Longrightarrow> (g', s' @ t) \<in> set (ms r (s @ t) g)"
  "(g', s') \<in> set (mseq rs s g) \<Longrightarrow> (g', s' @ t) \<in> set (mseq rs (s @ t) g)"
proof (induction r s g and rs s g arbitrary: g' s' and g' s' rule: ms_mseq.induct)
  case (1 x s g)
  then show ?case by (auto split: list.splits if_splits)
next
  case (2 k s g)
  then show ?case by (auto split: list.splits if_splits)
next
  case (3 k lo hi s g)
  from "3.prems" obtain n where n: "lo \<le> n" "n \<le> run k hi s" "g' = g" "s' = drop n s"
    by auto
  from n(2) run_le_length[of k hi s] have "n \<le> length s" by simp
  then have d: "drop n (s @ t) = drop n s @ t" by simp
  from n(2) run_append[of k hi s t] have "n \<le> run k hi (s @ t)" by simp
  with n(1) have "n \<in> set (rev [lo ..< Suc (run k hi (s @ t))])" by auto
  then have "(g, drop n (s @ t))
               \<in> (\<lambda>n. (g, drop n (s @ t))) ` set (rev [lo ..< Suc (run k hi (s @ t))])"
    by (rule imageI)
  then have "(g, drop n (s @ t)) \<in> set (ms (Rep k lo hi) (s @ t) g)"
    by (simp only: ms.simps set_map)
  with n d show ?case by (simp only:)
next
  case (4 rs s g)
  then show ?case by auto
next
  case (5 j rs s g)
  from "5.prems" obtain g1 where g1: "(g1, s') \<in> set (mseq rs s g)"
    and g': "g' = g1(j \<mapsto> take (length s - length s') s)"
    by auto
  have "take (length (s @ t) - length (s' @ t)) (s @ t) = take (length s - length s') s"
    by simp
  with "5.IH"[OF g1] g' show ?case by force
next
  case (6 s g)
  then show ?case by simp
next
  case (7 r rs s g)
  from "7.prems" obtain g1 s1 where a: "(g1, s1) \<in> set (ms r s g)"
    and b: "(g', s') \<in> set (mseq rs s1 g1)"
    by auto
  from "7.IH"(1)[OF a] have a': "(g1, s1 @ t) \<in> set (ms r (s @ t) g)" .
  from "7.IH"(2)[OF a refl b] have b': "(g', s' @ t) \<in> set (mseq rs (s1 @ t) g1)" .
  from a' b' show ?case by force
qed

lemma re_search_None:
  "re_search p s = None \<longleftrightarrow> (\<forall>k \<le> length s. mseq p (drop k s) Map.empty = [])"
proof (induction s)
  case Nil
  then show ?case by (auto split: list.splits)
next
  case (Cons x xs)
  have "(\<forall>k \<le> length (x # xs). mseq p (drop k (x # xs)) Map.empty = [])
          \<longleftrightarrow> mseq p (x # xs) Map.empty = [] \<and> (\<forall>k \<le> length xs. mseq p (drop k xs) Map.empty = [])"
  proof
    assume a: "\<forall>k \<le> length (x # xs). mseq p (drop k (x # xs)) Map.empty = []"
    then have "mseq p (drop 0 (x # xs)) Map.empty = []" by blast
    moreover have "\<forall>k \<le> length xs. mseq p (drop k xs) Map.empty = []"
    proof (intro allI impI)
      fix k assume "k \<le> length xs"
      with a have "mseq p (drop (Suc k) (x # xs)) Map.empty = []" by auto
      then show "mseq p (drop k xs) Map.empty = []" by simp
    qed
    ultimately show "mseq p (x # xs) Map.empty = [] \<and> (\<forall>k \<le> length xs. mseq p (drop k xs) Map.empty = [])"
      by simp
  next
    assume a: "mseq p (x # xs) Map.empty = [] \<and> (\<forall>k \<le> length xs. mseq p (drop k xs) Map.empty = [])"
    show "\<forall>k \<le> length (x # xs). mseq p (drop k (x # xs)) Map.empty = []"
    proof (intro allI impI)
      fix k assume "k \<le> length (x # xs)"
      with a show "mseq p (drop k (x # xs)) Map.empty = []" by (cases k) auto
    qed
  qed
  moreover have "re_search p (x # xs) = None
          \<longleftrightarrow> mseq p (x # xs) Map.empty = [] \<and> re_search p xs = None"
    by (auto split: list.splits option.splits)
  ultimately show ?case using Cons.IH by simp
qed

lemma strip_infix: "\<exists>a b. l = a @ strip l @ b"
proof -
  let ?m = "dropWhile py_isspace l"
  have 1: "l = takeWhile py_isspace l @ ?m" by simp
  have "rev (dropWhile py_isspace (rev ?m)) @ rev (takeWhile py_isspace (rev ?m))
          = rev (takeWhile py_isspace (rev ?m) @ dropWhile py_isspace (rev ?m))"
    by (simp only: rev_append)
  also have "\<dots> = rev (rev ?m)" by (simp only: takeWhile_dropWhile_id)
  also have "\<dots> = ?m" by (simp only: rev_rev_ident)
  finally have 2: "?m = strip l @ rev (takeWhile py_isspace (rev ?m))"
    by (simp only: strip_def)
  from 1 2 have "l = takeWhile py_isspace l @ strip l @ rev (takeWhile py_isspace (rev ?m))"
    by (simp only:)
  then show ?thesis by blast
qed

lemma re_search_strip:
  assumes "re_search p l = None"
  shows "re_search p (strip l) = None"
proof (rule ccontr)
  assume "re_search p (strip l) \<noteq> None"
  then obtain k where k: "k \<le> length (strip l)" "mseq p (drop k (strip l)) Map.empty \<noteq> []"
    by (auto simp: re_search_None)
  then obtain g r where gr: "(g, r) \<in> set (mseq p (drop k (strip l)) Map.empty)"
    by (cases "mseq p (drop k (strip l)) Map.empty") auto
  obtain a b where ab: "l = a @ strip l @ b" using strip_infix by blast
  from ms_extend(2)[OF gr, of b] have m: "mseq p (drop k (strip l) @ b) Map.empty \<noteq> []" by auto
  have "drop (length a + k) (a @ strip l @ b) = drop k (strip l) @ b"
    using k(1) by simp
  with ab have d: "drop (length a + k) l = drop k (strip l) @ b" by simp
  have "length a + k \<le> length l" using k(1) ab
    by (metis add_le_cancel_left le_add1 le_trans length_append)
  with assms have "mseq p (drop (length a + k) l) Map.empty = []"
    by (simp add: re_search_None)
  with d m show False by simp
qed

section \<open>Properties of the diarization normalizer\<close>

subsection \<open>The normalizer as a whole\<close>

lemma merged_ends_none:
  "\<forall>x\<in>set (merge_segments (raw_segments tx)). seg_end x = None"
proof (rule merge_segments_ends)
  show "\<forall>x\<in>set (raw_segments tx). seg_end x = None"
    using raw_segments_ok[of tx] by blast
qed

lemma parse_length: "length (parse_gemini_diarization tx) = length (merge_segments (raw_segments tx))"
  by (simp add: parse_gemini_diarization_def end_times_length)

lemma parse_start:
  "i < length (parse_gemini_diarization tx) \<Longrightarrow>
     seg_start (parse_gemini_diarization tx ! i) = seg_start (merge_segments (raw_segments tx) ! i)"
proof -
  assume i: "i < length (parse_gemini_diarization tx)"
  let ?m = "merge_segments (raw_segments tx)"
  from i have im: "i < length ?m" by (simp add: parse_length)
  have "seg_start (end_times ?m ! i) = map seg_start (end_times ?m) ! i"
    using im by (simp add: end_times_length)
  also have "\<dots> = map seg_start ?m ! i" by (simp only: end_times_starts)
  also have "\<dots> = seg_start (?m ! i)" using im by simp
  finally show ?thesis by (simp add: parse_gemini_diarization_def)
qed

lemma parse_end:
  "i < length (parse_gemini_diarization tx) \<Longrightarrow>
     seg_end (parse_gemini_diarization tx ! i) =
       (if Suc i < length (parse_gemini_diarization tx)
        then seg_start (parse_gemini_diarization tx ! Suc i) else None)"
proof -
  assume i: "i < length (parse_gemini_diarization tx)"
  let ?m = "merge_segments (raw_segments tx)"
  from i have im: "i < length ?m" by (simp add: parse_length)
  have e: "seg_end (end_times ?m ! i) = (if Suc i < length ?m then seg_start (?m ! Suc i) else None)"
    by (rule end_times_end[OF merged_ends_none im])
  show ?thesis
  proof (cases "Suc i < length ?m")
    case True
    then have "Suc i < length (parse_gemini_diarization tx)" by (simp add: parse_length)
    from parse_start[OF this] True e show ?thesis
      by (simp add: parse_gemini_diarization_def end_times_length)
  next
    case False
    with e show ?thesis by (simp add: parse_gemini_diarization_def end_times_length)
  qed
qed

lemma parse_distinct_adj: "distinct_adj (map seg_speaker (parse_gemini_diarization tx))"
  by (simp add: parse_gemini_diarization_def end_times_speakers merge_segments_distinct_adj)

lemma parse_adjacent:
  assumes "Suc i < length (parse_gemini_diarization tx)"
  shows "seg_speaker (parse_gemini_diarization tx ! i) \<noteq> seg_speaker (parse_gemini_diarization tx ! Suc i)"
proof -
  let ?sp = "map seg_speaker (parse_gemini_diarization tx)"
  from assms have l: "Suc i < length ?sp" by simp
  have "successively (\<noteq>) ?sp" using parse_distinct_adj[of tx] by (simp add: distinct_adj_def)
  with l have "?sp ! i \<noteq> ?sp ! Suc i" by (simp add: successively_conv_nth)
  with assms show ?thesis by simp
qed

lemma process_line_no_marker:
  assumes "\<forall>p\<in>set patterns. re_search p raw = None"
  shows "process_line init_state raw = init_state"
proof -
  from assms have "\<forall>p\<in>set patterns. re_search p (strip raw) = None"
    by (simp add: re_search_strip)
  then have "match_patterns patterns (strip raw) = (None, None, strip raw)"
    by (rule match_patterns_none)
  then show ?thesis by (simp add: process_line_def init_state_def truthy_def Let_def)
qed

lemma foldl_no_marker:
  "\<forall>l\<in>set ls. \<forall>p\<in>set patterns. re_search p l = None \<Longrightarrow> foldl process_line init_state ls = init_state"
  by (induction ls) (simp_all add: process_line_no_marker)

lemma merge_two:
  "merge_segments [a, b] =
     (if seg_speaker a = seg_speaker b then [a\<lparr>seg_text := seg_text a @ '' '' @ seg_text b\<rparr>] else [a, b])"
  by (simp add: merge_segments_def merge_step_def)

lemma scenario:
  "parse_gemini_diarization
     (''[Speaker A, 0:00] Hello.'' @ [CHR 0x0A] @ ''[Speaker A, 0:05] More.'' @ [CHR 0x0A]
        @ ''[Speaker B, 0:10] Hi.'')
   = [\<lparr>seg_speaker = ''Speaker A'', seg_text = ''Hello. More.'', seg_start = Some 0, seg_end = Some 10\<rparr>,
      \<lparr>seg_speaker = ''Speaker B'', seg_text = ''Hi.'', seg_start = Some 10, seg_end = None\<rparr>]"
  by code_simp

text \<open>
  C1. In every result of the normalizer no two adjacent segments have the same speaker
  label. The merge pass achieves this as follows: when the next raw segment has the speaker
  of the raw segment before it, its text is appended to the last merged segment after a
  single space and no new entry is made; otherwise the raw segment is appended unchanged.
\<close>

theorem merge_invariant:
  "(\<forall>i. Suc i < length (parse_gemini_diarization tx) \<longrightarrow>
        seg_speaker (parse_gemini_diarization tx ! i)
          \<noteq> seg_speaker (parse_gemini_diarization tx ! Suc i))
   \<and> (\<forall>segs s. segs \<noteq> [] \<and> seg_speaker (last segs) = seg_speaker s \<longrightarrow>
          merge_segments (segs @ [s]) =
            butlast (merge_segments segs) @
              [(last (merge_segments segs))
                 \<lparr>seg_text := seg_text (last (merge_segments segs)) @ '' '' @ seg_text s\<rparr>])
   \<and> (\<forall>segs s. segs = [] \<or> seg_speaker (last segs) \<noteq> seg_speaker s \<longrightarrow>
          merge_segments (segs @ [s]) = merge_segments segs @ [s])"
  using parse_adjacent merge_segments_same_speaker merge_segments_other_speaker by blast

theorem merge_invariant_witness:
  "Suc 0 < length (parse_gemini_diarization
       (''[Speaker A, 0:00] Hello.'' @ [CHR 0x0A] @ ''[Speaker A, 0:05] More.'' @ [CHR 0x0A]
          @ ''[Speaker B, 0:10] Hi.''))
   \<and> seg_speaker (parse_gemini_diarization
       (''[Speaker A, 0:00] Hello.'' @ [CHR 0x0A] @ ''[Speaker A, 0:05] More.'' @ [CHR 0x0A]
          @ ''[Speaker B, 0:10] Hi.'') ! 0)
     \<noteq> seg_speaker (parse_gemini_diarization
       (''[Speaker A, 0:00] Hello.'' @ [CHR 0x0A] @ ''[Speaker A, 0:05] More.'' @ [CHR 0x0A]
          @ ''[Speaker B, 0:10] Hi.'') ! Suc 0)
   \<and> merge_segments
        ([\<lparr>seg_speaker = ''Speaker A'', seg_text = ''Hello.'', seg_start = Some 0, seg_end = None\<rparr>]
         @ [\<lparr>seg_speaker = ''Speaker A'', seg_text = ''More.'', seg_start = Some 5, seg_end = None\<rparr>])
       = [\<lparr>seg_speaker = ''Speaker A'', seg_text = ''Hello. More.'', seg_start = Some 0, seg_end = None\<rparr>]
   \<and> merge_segments
        ([\<lparr>seg_speaker = ''Speaker A'', seg_text = ''Hello.'', seg_start = Some 0, seg_end = None\<rparr>]
         @ [\<lparr>seg_speaker = ''Speaker B'', seg_text = ''Hi.'', seg_start = Some 10, seg_end = None\<rparr>])
       = [\<lparr>seg_speaker = ''Speaker A'', seg_text = ''Hello.'', seg_start = Some 0, seg_end = None\<rparr>,
          \<lparr>seg_speaker = ''Speaker B'', seg_text = ''Hi.'', seg_start = Some 10, seg_end = None\<rparr>]"
proof -
  let ?tx = "''[Speaker A, 0:00] Hello.'' @ [CHR 0x0A] @ ''[Speaker A, 0:05] More.'' @ [CHR 0x0A]
          @ ''[Speaker B, 0:10] Hi.''"
  let ?a = "\<lparr>seg_speaker = ''Speaker A'', seg_text = ''Hello.'', seg_start = Some 0, seg_end = None\<rparr>"
  let ?a' = "\<lparr>seg_speaker = ''Speaker A'', seg_text = ''More.'', seg_start = Some 5, seg_end = None\<rparr>"
  let ?b = "\<lparr>seg_speaker = ''Speaker B'', seg_text = ''Hi.'', seg_start = Some 10, seg_end = None\<rparr>"
  note T = merge_invariant
  have len: "Suc 0 < length (parse_gemini_diarization ?tx)"
    by (simp only: scenario) simp
  from T[of ?tx, THEN conjunct1, rule_format, OF len]
  have adj: "seg_speaker (parse_gemini_diarization ?tx ! 0)
               \<noteq> seg_speaker (parse_gemini_diarization ?tx ! Suc 0)" .
  have one: "merge_segments [?a] = [?a]" by (simp add: merge_segments_def merge_step_def)
  have "[?a] \<noteq> [] \<and> seg_speaker (last [?a]) = seg_speaker ?a'" by simp
  from T[of ?tx, THEN conjunct2, THEN conjunct1, rule_format, OF this]
  have same: "merge_segments ([?a] @ [?a']) =
      [\<lparr>seg_speaker = ''Speaker A'', seg_text = ''Hello. More.'', seg_start = Some 0, seg_end = None\<rparr>]"
    by (simp add: one)
  have "[?a] = [] \<or> seg_speaker (last [?a]) \<noteq> seg_speaker ?b" by simp
  from T[of ?tx, THEN conjunct2, THEN conjunct2, rule_format, OF this]
  have other: "merge_segments ([?a] @ [?b]) = [?a, ?b]"
    by (simp add: one)
  show ?thesis by (intro conjI) (fact len adj same other)+
qed

text \<open>
  C2. In every result of the normalizer, a segment that has a successor ends where the
  successor starts when that start is known, and has no end time when it is not (its end is
  never taken from its own content); the last segment has no end time.
\<close>

theorem end_time_inference:
  "(\<forall>i. Suc i < length (parse_gemini_diarization tx)
          \<and> seg_start (parse_gemini_diarization tx ! Suc i) \<noteq> None \<longrightarrow>
        seg_end (parse_gemini_diarization tx ! i) = seg_start (parse_gemini_diarization tx ! Suc i))
   \<and> (\<forall>i. Suc i < length (parse_gemini_diarization tx)
          \<and> seg_start (parse_gemini_diarization tx ! Suc i) = None \<longrightarrow>
        seg_end (parse_gemini_diarization tx ! i) = None)
   \<and> (parse_gemini_diarization tx \<noteq> [] \<longrightarrow> seg_end (last (parse_gemini_diarization tx)) = None)"
proof (intro conjI allI impI)
  fix i
  assume "Suc i < length (parse_gemini_diarization tx)
          \<and> seg_start (parse_gemini_diarization tx ! Suc i) \<noteq> None"
  then show "seg_end (parse_gemini_diarization tx ! i) = seg_start (parse_gemini_diarization tx ! Suc i)"
    using parse_end[of i tx] by simp
next
  fix i
  assume "Suc i < length (parse_gemini_diarization tx)
          \<and> seg_start (parse_gemini_diarization tx ! Suc i) = None"
  then show "seg_end (parse_gemini_diarization tx ! i) = None"
    using parse_end[of i tx] by simp
next
  assume ne: "parse_gemini_diarization tx \<noteq> []"
  then have l: "length (parse_gemini_diarization tx) - 1 < length (parse_gemini_diarization tx)"
    by simp
  from ne have "last (parse_gemini_diarization tx)
                  = parse_gemini_diarization tx ! (length (parse_gemini_diarization tx) - 1)"
    by (rule last_conv_nth)
  moreover have "\<not> Suc (length (parse_gemini_diarization tx) - 1) < length (parse_gemini_diarization tx)"
    by simp
  ultimately show "seg_end (last (parse_gemini_diarization tx)) = None"
    using parse_end[OF l] by (simp only: if_False)
qed

lemma scenario_no_time:
  "parse_gemini_diarization (''[Speaker A, 0:07] Hello.'' @ [CHR 0x0A] @ ''**Speaker B:** Hi.'')
   = [\<lparr>seg_speaker = ''Speaker A'', seg_text = ''Hello.'', seg_start = Some 7, seg_end = None\<rparr>,
      \<lparr>seg_speaker = ''Speaker B'', seg_text = ''Hi.'', seg_start = None, seg_end = None\<rparr>]"
  by code_simp

theorem end_time_inference_witness:
  "Suc 0 < length (parse_gemini_diarization
       (''[Speaker A, 0:00] Hello.'' @ [CHR 0x0A] @ ''[Speaker A, 0:05] More.'' @ [CHR 0x0A]
          @ ''[Speaker B, 0:10] Hi.''))
   \<and> seg_start (parse_gemini_diarization
       (''[Speaker A, 0:00] Hello.'' @ [CHR 0x0A] @ ''[Speaker A, 0:05] More.'' @ [CHR 0x0A]
          @ ''[Speaker B, 0:10] Hi.'') ! Suc 0) = Some 10
   \<and> seg_end (parse_gemini_diarization
       (''[Speaker A, 0:00] Hello.'' @ [CHR 0x0A] @ ''[Speaker A, 0:05] More.'' @ [CHR 0x0A]
          @ ''[Speaker B, 0:10] Hi.'') ! 0) = Some 10
   \<and> seg_end (last (parse_gemini_diarization
       (''[Speaker A, 0:00] Hello.'' @ [CHR 0x0A] @ ''[Speaker A, 0:05] More.'' @ [CHR 0x0A]
          @ ''[Speaker B, 0:10] Hi.''))) = None
   \<and> Suc 0 < length (parse_gemini_diarization
       (''[Speaker A, 0:07] Hello.'' @ [CHR 0x0A] @ ''**Speaker B:** Hi.''))
   \<and> seg_start (parse_gemini_diarization
       (''[Speaker A, 0:07] Hello.'' @ [CHR 0x0A] @ ''**Speaker B:** Hi.'') ! Suc 0) = None
   \<and> seg_end (parse_gemini_diarization
       (''[Speaker A, 0:07] Hello.'' @ [CHR 0x0A] @ ''**Speaker B:** Hi.'') ! 0) = None"
proof -
  let ?t1 = "''[Speaker A, 0:00] Hello.'' @ [CHR 0x0A] @ ''[Speaker A, 0:05] More.'' @ [CHR 0x0A]
          @ ''[Speaker B, 0:10] Hi.''"
  let ?t2 = "''[Speaker A, 0:07] Hello.'' @ [CHR 0x0A] @ ''**Speaker B:** Hi.''"
  note T1 = end_time_inference[of ?t1]
  note T2 = end_time_inference[of ?t2]
  have l1: "Suc 0 < length (parse_gemini_diarization ?t1)" by (simp only: scenario) simp
  have s1: "seg_start (parse_gemini_diarization ?t1 ! Suc 0) = Some 10" by (simp only: scenario) simp
  have n1: "parse_gemini_diarization ?t1 \<noteq> []" by (simp only: scenario) simp
  have l2: "Suc 0 < length (parse_gemini_diarization ?t2)" by (simp only: scenario_no_time) simp
  have s2: "seg_start (parse_gemini_diarization ?t2 ! Suc 0) = None" by (simp only: scenario_no_time) simp
  from l1 s1 have h1: "Suc 0 < length (parse_gemini_diarization ?t1)
      \<and> seg_start (parse_gemini_diarization ?t1 ! Suc 0) \<noteq> None" by simp
  from T1[THEN conjunct1, rule_format, OF h1] s1
  have e1: "seg_end (parse_gemini_diarization ?t1 ! 0) = Some 10" by (simp only:)
  from T1[THEN conjunct2, THEN conjunct2, rule_format, OF n1]
  have e2: "seg_end (last (parse_gemini_diarization ?t1)) = None" .
  from l2 s2 have h2: "Suc 0 < length (parse_gemini_diarization ?t2)
      \<and> seg_start (parse_gemini_diarization ?t2 ! Suc 0) = None" by simp
  from T2[THEN conjunct2, THEN conjunct1, rule_format, OF h2]
  have e3: "seg_end (parse_gemini_diarization ?t2 ! 0) = None" .
  show ?thesis by (intro conjI) (fact l1 s1 e1 e2 l2 s2 e3)+
qed

text \<open>
  C3. The scenario of the specification: three marker lines, the first two of Speaker A,
  give two segments, the first from 0 to 10 with both texts joined by a space, the second
  from 10 with no end time.
\<close>

theorem scenario_two_segments:
  "parse_gemini_diarization
     (''[Speaker A, 0:00] Hello.'' @ [CHR 0x0A] @ ''[Speaker A, 0:05] More.'' @ [CHR 0x0A]
        @ ''[Speaker B, 0:10] Hi.'')
   = [\<lparr>seg_speaker = ''Speaker A'', seg_text = ''Hello. More.'', seg_start = Some 0, seg_end = Some 10\<rparr>,
      \<lparr>seg_speaker = ''Speaker B'', seg_text = ''Hi.'', seg_start = Some 10, seg_end = None\<rparr>]"
  by (rule scenario)

text \<open>
  C8. A text none of whose lines holds a match of any of the six patterns is normalized to
  the empty list; the normalizer is a total function, so no text makes it fail.
\<close>

theorem no_marker_empty:
  assumes "\<forall>line\<in>set (split_on (CHR 0x0A) tx). \<forall>p\<in>set patterns. re_search p line = None"
  shows "parse_gemini_diarization tx = []"
proof -
  from assms have "foldl process_line init_state (split_on (CHR 0x0A) tx) = init_state"
    by (rule foldl_no_marker)
  then have "raw_segments tx = []"
    by (simp add: raw_segments_def close_segment_def init_state_def)
  then show ?thesis
    by (simp add: parse_gemini_diarization_def merge_segments_def end_times_def)
qed

theorem no_marker_empty_witness:
  "list_all (\<lambda>line. list_all (\<lambda>p. re_search p line = None) patterns)
      (split_on (CHR 0x0A) (''Good morning, everyone.'' @ [CHR 0x0A] @ ''  Speaker one said: 0:15 ''
        @ [CHR 0x0A] @ ''[speaker a] (Speaker AB:)''))
   \<and> parse_gemini_diarization (''Good morning, everyone.'' @ [CHR 0x0A] @ ''  Speaker one said: 0:15 ''
        @ [CHR 0x0A] @ ''[speaker a] (Speaker AB:)'') = []"
proof -
  have h: "\<forall>line\<in>set (split_on (CHR 0x0A) (''Good morning, everyone.'' @ [CHR 0x0A] @ ''  Speaker one said: 0:15 ''
        @ [CHR 0x0A] @ ''[speaker a] (Speaker AB:)'')).
       \<forall>p\<in>set patterns. re_search p line = None"
    by code_simp
  from h have h': "list_all (\<lambda>line. list_all (\<lambda>p. re_search p line = None) patterns)
      (split_on (CHR 0x0A) (''Good morning, everyone.'' @ [CHR 0x0A] @ ''  Speaker one said: 0:15 ''
        @ [CHR 0x0A] @ ''[speaker a] (Speaker AB:)''))"
    by (simp only: list_all_iff)
  from no_marker_empty[OF h] h' show ?thesis by (intro conjI)
qed

lemma match_patterns_found:
  "\<exists>p\<in>set ps. re_search p line \<noteq> None \<Longrightarrow>
     \<exists>sp tf l. match_patterns ps line = (Some sp, tf, l) \<and> sp \<noteq> []"
proof (induction ps)
  case Nil
  then show ?case by simp
next
  case (Cons p ps)
  show ?case
  proof (cases "re_search p line")
    case None
    with Cons show ?thesis by auto
  next
    case (Some m)
    obtain pre g r where "m = (pre, g, r)" by (cases m) auto
    with Some show ?thesis by simp
  qed
qed

lemma process_line_marker:
  assumes "\<exists>p\<in>set patterns. re_search p (strip raw) \<noteq> None"
  shows "segments (process_line st raw) = close_segment st"
proof -
  from assms have ne: "strip raw \<noteq> []"
    by (auto simp: patterns_def lit_def clock_def split: list.splits)
  from match_patterns_found[OF assms] obtain sp tf l
    where m: "match_patterns patterns (strip raw) = (Some sp, tf, l)" and sp: "sp \<noteq> []"
    by blast
  from ne m sp show ?thesis by (simp add: process_line_def Let_def truthy_def)
qed

lemma reachable_ok: "state_ok (foldl process_line init_state ls)"
  by (rule foldl_process_line_ok) (rule init_state_ok)

lemma speaker_label_nonempty: "speaker_label sp \<Longrightarrow> sp \<noteq> []"
  by (auto simp: speaker_label_def)

text \<open>
  C9, as the code has it. When a line with a recognized marker is processed while a segment
  is open, the open segment is appended to the list of raw segments if it has gathered at
  least one line of text; an open segment with no text is dropped.
\<close>

theorem marker_closes_open_segment:
  assumes "st = foldl process_line init_state ls"
    and "current_speaker st = Some sp"
    and "\<exists>p\<in>set patterns. re_search p (strip raw) \<noteq> None"
  shows "segments (process_line st raw) =
           (if current_text st = [] then segments st
            else segments st @
                   [\<lparr>seg_speaker = sp,
                     seg_text = strip (py_join '' '' (current_text st)),
                     seg_start = parse_timestamp (current_time st),
                     seg_end = None\<rparr>])"
proof -
  from assms(1) have "state_ok st" by (simp add: reachable_ok)
  with assms(2) have "speaker_label sp" by (simp add: state_ok_def)
  then have "sp \<noteq> []" by (rule speaker_label_nonempty)
  with assms(2) process_line_marker[OF assms(3), of st] show ?thesis
    by (simp add: close_segment_def)
qed

lemma open_with_text:
  "foldl process_line init_state [''[Speaker A, 0:03] Hello'', ''  and more''] =
     \<lparr>current_speaker = Some ''Speaker A'', current_text = [''Hello'', ''and more''],
      current_time = Some ''0:03'', segments = []\<rparr>"
  by code_simp

lemma open_without_text:
  "foldl process_line init_state [''[Speaker A, 0:03]''] =
     \<lparr>current_speaker = Some ''Speaker A'', current_text = [],
      current_time = Some ''0:03'', segments = []\<rparr>"
  by code_simp

lemma marker_on_line: "\<exists>p\<in>set patterns. re_search p (strip ''[Speaker B] Hi.'') \<noteq> None"
  by code_simp

theorem marker_closes_open_segment_witness:
  "current_speaker (foldl process_line init_state [''[Speaker A, 0:03] Hello'', ''  and more''])
     = Some ''Speaker A''
   \<and> (\<exists>p\<in>set patterns. re_search p (strip ''[Speaker B] Hi.'') \<noteq> None)
   \<and> segments (process_line
         (foldl process_line init_state [''[Speaker A, 0:03] Hello'', ''  and more''])
         ''[Speaker B] Hi.'')
       = [\<lparr>seg_speaker = ''Speaker A'', seg_text = ''Hello and more'', seg_start = Some 3,
           seg_end = None\<rparr>]
   \<and> current_speaker (foldl process_line init_state [''[Speaker A, 0:03]'']) = Some ''Speaker A''
   \<and> segments (process_line (foldl process_line init_state [''[Speaker A, 0:03]''])
         ''[Speaker B] Hi.'') = []"
proof -
  let ?s1 = "foldl process_line init_state [''[Speaker A, 0:03] Hello'', ''  and more'']"
  let ?s2 = "foldl process_line init_state [''[Speaker A, 0:03]'']"
  have c1: "current_speaker ?s1 = Some ''Speaker A''" by (simp only: open_with_text) simp
  have c2: "current_speaker ?s2 = Some ''Speaker A''" by (simp only: open_without_text) simp
  have j: "strip ''Hello and more'' = ''Hello and more''" by code_simp
  have t: "parse_timestamp (Some ''0:03'') = Some 3" by code_simp
  from marker_closes_open_segment[OF refl c1 marker_on_line]
  have r1: "segments (process_line ?s1 ''[Speaker B] Hi.'')
      = [\<lparr>seg_speaker = ''Speaker A'', seg_text = ''Hello and more'', seg_start = Some 3,
          seg_end = None\<rparr>]"
    by (simp only: open_with_text) (simp add: j t)
  from marker_closes_open_segment[OF refl c2 marker_on_line]
  have r2: "segments (process_line ?s2 ''[Speaker B] Hi.'') = []"
    by (simp only: open_without_text) simp
  show ?thesis by (intro conjI) (fact c1 c2 marker_on_line r1 r2)+
qed

text \<open>
  C9 as the claim states it fails: after the line \<open>[Speaker A]\<close> a segment of Speaker A is
  open; the next line holds a recognized marker, and the open segment is not appended. The
  list of raw segments of the two lines holds Speaker B only.
\<close>

theorem marker_closes_open_segment_counterexample:
  "current_speaker (process_line init_state ''[Speaker A]'') = Some ''Speaker A''
   \<and> fst (match_patterns patterns (strip ''[Speaker B] Hi.'')) = Some ''Speaker B''
   \<and> segments (process_line (process_line init_state ''[Speaker A]'') ''[Speaker B] Hi.'') = []
   \<and> raw_segments (''[Speaker A]'' @ [CHR 0x0A] @ ''[Speaker B] Hi.'')
       = [\<lparr>seg_speaker = ''Speaker B'', seg_text = ''Hi.'', seg_start = None, seg_end = None\<rparr>]
   \<and> parse_gemini_diarization (''[Speaker A]'' @ [CHR 0x0A] @ ''[Speaker B] Hi.'')
       = [\<lparr>seg_speaker = ''Speaker B'', seg_text = ''Hi.'', seg_start = None, seg_end = None\<rparr>]"
  by code_simp

lemma upper_letters: "is_upper c \<longleftrightarrow> c \<in> set ''ABCDEFGHIJKLMNOPQRSTUVWXYZ''"
proof -
  have a: "list_all is_upper ''ABCDEFGHIJKLMNOPQRSTUVWXYZ''" by code_simp
  then have sub: "set ''ABCDEFGHIJKLMNOPQRSTUVWXYZ'' \<subseteq> {c. is_upper c}"
    by (auto simp only: list_all_iff)
  have d: "distinct ''ABCDEFGHIJKLMNOPQRSTUVWXYZ''" by code_simp
  have "card (set ''ABCDEFGHIJKLMNOPQRSTUVWXYZ'') = length ''ABCDEFGHIJKLMNOPQRSTUVWXYZ''"
    using d by (rule distinct_card)
  then have "card (set ''ABCDEFGHIJKLMNOPQRSTUVWXYZ'') = card {c. is_upper c}"
    by (simp add: card_upper)
  with sub finite_upper have "set ''ABCDEFGHIJKLMNOPQRSTUVWXYZ'' = {c. is_upper c}"
    by (metis card_subset_eq)
  then show ?thesis by blast
qed

lemma re_search_letter:
  assumes "p \<in> set patterns" and "re_search p line = Some (pre, g, r)"
  shows "\<exists>c. is_upper c \<and> g 1 = Some [c]"
proof -
  from re_search_match[OF assms(2)] obtain s' where "(g, r) \<in> set (mseq p s' Map.empty)" by blast
  with assms(1) patterns_letter_group letter_group_captured[of p g r s' Map.empty]
  show ?thesis by blast
qed

lemma not_recognized:
  "parse_gemini_diarization ''[Speaker AB] one'' = []"
  "parse_gemini_diarization ''Speaker b: two'' = []"
  "parse_gemini_diarization ''**Speaker 3:** three'' = []"
  by code_simp+

text \<open>
  C10. Every segment of a result of the normalizer has a label made of the word Speaker, a
  space and one of the letters A to Z; so a result holds at most 26 different labels. The
  reason lies in the patterns: in every match of one of the six patterns the first group is
  one such letter. Markers whose identifier has two letters, a lower-case letter or a digit
  are not recognized.
\<close>

theorem speaker_labels:
  "(\<forall>seg\<in>set (parse_gemini_diarization tx).
       \<exists>c. c \<in> set ''ABCDEFGHIJKLMNOPQRSTUVWXYZ'' \<and> seg_speaker seg = ''Speaker '' @ [c])
   \<and> card (seg_speaker ` set (parse_gemini_diarization tx)) \<le> 26
   \<and> (\<forall>p\<in>set patterns. \<forall>line pre g r. re_search p line = Some (pre, g, r) \<longrightarrow>
         (\<exists>c. c \<in> set ''ABCDEFGHIJKLMNOPQRSTUVWXYZ'' \<and> g 1 = Some [c]))
   \<and> parse_gemini_diarization ''[Speaker AB] one'' = []
   \<and> parse_gemini_diarization ''Speaker b: two'' = []
   \<and> parse_gemini_diarization ''**Speaker 3:** three'' = []"
proof (intro conjI ballI allI impI)
  fix seg
  assume "seg \<in> set (parse_gemini_diarization tx)"
  then have "speaker_label (seg_speaker seg)" by (rule parse_speaker_label)
  then show "\<exists>c. c \<in> set ''ABCDEFGHIJKLMNOPQRSTUVWXYZ'' \<and> seg_speaker seg = ''Speaker '' @ [c]"
    unfolding speaker_label_def upper_letters .
next
  show "card (seg_speaker ` set (parse_gemini_diarization tx)) \<le> 26"
    by (rule parse_labels_card)
next
  fix p line pre g r
  assume "p \<in> set patterns" "re_search p line = Some (pre, g, r)"
  then have "\<exists>c. is_upper c \<and> g 1 = Some [c]" by (rule re_search_letter)
  then show "\<exists>c. c \<in> set ''ABCDEFGHIJKLMNOPQRSTUVWXYZ'' \<and> g 1 = Some [c]"
    unfolding upper_letters .
qed (rule not_recognized)+

theorem speaker_labels_witness:
  "hd (parse_gemini_diarization
       (''[Speaker A, 0:00] Hello.'' @ [CHR 0x0A] @ ''[Speaker A, 0:05] More.'' @ [CHR 0x0A]
          @ ''[Speaker B, 0:10] Hi.''))
     \<in> set (parse_gemini_diarization
       (''[Speaker A, 0:00] Hello.'' @ [CHR 0x0A] @ ''[Speaker A, 0:05] More.'' @ [CHR 0x0A]
          @ ''[Speaker B, 0:10] Hi.''))
   \<and> (\<exists>c. c \<in> set ''ABCDEFGHIJKLMNOPQRSTUVWXYZ''
         \<and> seg_speaker (hd (parse_gemini_diarization
              (''[Speaker A, 0:00] Hello.'' @ [CHR 0x0A] @ ''[Speaker A, 0:05] More.'' @ [CHR 0x0A]
                 @ ''[Speaker B, 0:10] Hi.''))) = ''Speaker '' @ [c])
   \<and> patterns ! 5 \<in> set patterns
   \<and> (\<exists>pre g r. re_search (patterns ! 5) ''Then Speaker Q: yes'' = Some (pre, g, r)
         \<and> (\<exists>c. c \<in> set ''ABCDEFGHIJKLMNOPQRSTUVWXYZ'' \<and> g 1 = Some [c]))"
proof -
  let ?tx = "''[Speaker A, 0:00] Hello.'' @ [CHR 0x0A] @ ''[Speaker A, 0:05] More.'' @ [CHR 0x0A]
          @ ''[Speaker B, 0:10] Hi.''"
  note T = speaker_labels[of ?tx]
  have m: "hd (parse_gemini_diarization ?tx) \<in> set (parse_gemini_diarization ?tx)"
    by (simp only: scenario) simp
  from T[THEN conjunct1, rule_format, OF m]
  have l: "\<exists>c. c \<in> set ''ABCDEFGHIJKLMNOPQRSTUVWXYZ''
         \<and> seg_speaker (hd (parse_gemini_diarization ?tx)) = ''Speaker '' @ [c]" .
  have p: "patterns ! 5 \<in> set patterns" by (simp add: patterns_def)
  have "re_search (patterns ! 5) ''Then Speaker Q: yes'' \<noteq> None" by code_simp
  then obtain pre g r where s: "re_search (patterns ! 5) ''Then Speaker Q: yes'' = Some (pre, g, r)"
    by (cases "re_search (patterns ! 5) ''Then Speaker Q: yes''") auto
  from T[THEN conjunct2, THEN conjunct2, THEN conjunct1, rule_format, OF p s] s
  have q: "\<exists>pre g r. re_search (patterns ! 5) ''Then Speaker Q: yes'' = Some (pre, g, r)
         \<and> (\<exists>c. c \<in> set ''ABCDEFGHIJKLMNOPQRSTUVWXYZ'' \<and> g 1 = Some [c])"
    by blast
  show ?thesis by (intro conjI) (fact m l p q)+
qed

section \<open>Properties of the cache key\<close>

subsection \<open>Encoding and digest\<close>

lemma utf8_char_None: "utf8_char c = None \<longleftrightarrow> is_surrogate c"
  by (auto simp: utf8_char_def is_surrogate_def)

lemma encode_None: "encode s = None \<longleftrightarrow> (\<exists>c\<in>set s. is_surrogate c)"
proof (induction s)
  case Nil
  then show ?case by simp
next
  case (Cons c cs)
  show ?case
  proof (cases "utf8_char c")
    case None
    then show ?thesis by (simp add: utf8_char_None[symmetric])
  next
    case (Some b)
    then have "\<not> is_surrogate c" by (simp add: utf8_char_None[symmetric])
    with Some Cons.IH show ?thesis by (auto split: option.splits)
  qed
qed

lemma of_char_not_surrogate: "\<not> is_surrogate (of_char (c :: char))"
proof -
  have "(of_char c :: nat) < 256" by (rule nat_of_char_less_256)
  then show ?thesis unfolding is_surrogate_def by linarith
qed

lemma key_data_surrogate:
  "(\<exists>c\<in>set (key_data fs audio_path model language prompt). is_surrogate c)
     \<longleftrightarrow> (\<exists>c\<in>set (audio_path @ model @ or_empty language @ or_empty prompt). is_surrogate c)"
proof -
  have bar: "\<not> is_surrogate 0x7C" by (simp add: is_surrogate_def)
  have m: "\<forall>c\<in>set (case fs audio_path of None \<Rightarrow> [] | Some t \<Rightarrow> map of_char t). \<not> is_surrogate c"
    by (auto simp: of_char_not_surrogate split: option.splits)
  show ?thesis
    unfolding key_data_def Let_def using bar m by auto
qed

lemma sha_round_length: "length v = 8 \<Longrightarrow> length (sha_round v kw) = 8"
  by (auto simp: sha_round_def Let_def split: list.splits)

lemma foldl_sha_round_length: "length v = 8 \<Longrightarrow> length (foldl sha_round v xs) = 8"
  by (induction xs arbitrary: v) (simp_all add: sha_round_length)

lemma sha_block_length: "length hs = 8 \<Longrightarrow> length (sha_block hs block) = 8"
  by (simp add: sha_block_def foldl_sha_round_length)

lemma sha_blocks_length: "length hs = 8 \<Longrightarrow> length (sha_blocks n hs bs) = 8"
  by (induction n arbitrary: hs bs) (simp_all add: sha_block_length)

lemma sha256_length: "length (sha256 msg) = 8"
  by (simp add: sha256_def Let_def sha_blocks_length sha_h0_def)

lemma hex_word_length: "length (hex_word w) = 8"
  by (simp add: hex_word_def)

lemma hexdigest_length: "length (hexdigest hs) = 8 * length hs"
  by (induction hs) (simp_all add: hexdigest_def hex_word_length)

lemma hex_char_range: "hex_char n \<in> set ''0123456789abcdef''"
proof -
  have "n mod 16 < length ''0123456789abcdef''" by simp
  then show ?thesis unfolding hex_char_def by (rule nth_mem)
qed

lemma hex_word_chars: "set (hex_word w) \<subseteq> set ''0123456789abcdef''"
proof -
  have "set (hex_word w) = (\<lambda>i. hex_char (unat w div 16 ^ i)) ` set (rev [0 ..< 8])"
    by (simp only: hex_word_def set_map)
  also have "\<dots> \<subseteq> set ''0123456789abcdef''"
    by (rule image_subsetI) (rule hex_char_range)
  finally show ?thesis .
qed

lemma hexdigest_chars: "set (hexdigest hs) \<subseteq> set ''0123456789abcdef''"
proof
  fix c
  assume "c \<in> set (hexdigest hs)"
  then obtain w where "w \<in> set hs" "c \<in> set (hex_word w)"
    unfolding hexdigest_def set_concat set_map by blast
  with hex_word_chars[of w] show "c \<in> set ''0123456789abcdef''"
    by (rule_tac subsetD)
qed

lemma key_length: "length (take 16 (hexdigest (sha256 bytes))) = 16"
  by (simp add: hexdigest_length sha256_length)

lemma key_chars: "set (take 16 (hexdigest (sha256 bytes))) \<subseteq> set ''0123456789abcdef''"
  by (rule subset_trans[OF set_take_subset hexdigest_chars])

lemma key_data_same_time:
  "fs audio_path = fs' audio_path \<Longrightarrow>
     key_data fs audio_path model language prompt = key_data fs' audio_path model language prompt"
  by (simp add: key_data_def)

text \<open>
  C5, as the code has it. For texts free of lone surrogates the key is the first 16
  characters of the hexadecimal SHA-256 digest of the UTF-8 bytes of
  \<open>audio_path | mtime | model | language or '' | prompt or ''\<close>; it has 16 characters, all
  hexadecimal digits. The modification time is the empty text where it cannot be read. The
  key depends on the file system through the modification time of the audio path only, so
  two calls with the same arguments and the same modification time give the same key.
\<close>

theorem cache_key_derivation:
  "((\<forall>c\<in>set (audio_path @ model @ or_empty language @ or_empty prompt). \<not> is_surrogate c) \<longrightarrow>
      (\<exists>bytes key.
          encode (audio_path @ [0x7C]
                    @ (case fs audio_path of None \<Rightarrow> [] | Some t \<Rightarrow> map of_char t) @ [0x7C]
                    @ model @ [0x7C] @ or_empty language @ [0x7C] @ or_empty prompt) = Some bytes
          \<and> key = take 16 (hexdigest (sha256 bytes))
          \<and> get_cache_key fs audio_path model language prompt = Inr key
          \<and> length key = 16 \<and> set key \<subseteq> set ''0123456789abcdef''))
   \<and> (fs audio_path = None \<longrightarrow>
         key_data fs audio_path model language prompt =
           audio_path @ [0x7C] @ [] @ [0x7C] @ model @ [0x7C] @ or_empty language
             @ [0x7C] @ or_empty prompt)
   \<and> (\<forall>fs'. fs' audio_path = fs audio_path \<longrightarrow>
         get_cache_key fs' audio_path model language prompt
           = get_cache_key fs audio_path model language prompt)
   \<and> get_cache_key fs audio_path model None prompt = get_cache_key fs audio_path model (Some []) prompt
   \<and> get_cache_key fs audio_path model language None = get_cache_key fs audio_path model language (Some [])"
proof (intro conjI impI allI)
  assume a: "\<forall>c\<in>set (audio_path @ model @ or_empty language @ or_empty prompt). \<not> is_surrogate c"
  then have "\<not> (\<exists>c\<in>set (key_data fs audio_path model language prompt). is_surrogate c)"
    by (simp only: key_data_surrogate) blast
  then have "encode (key_data fs audio_path model language prompt) \<noteq> None"
    by (simp only: encode_None) blast
  then obtain bytes where b: "encode (key_data fs audio_path model language prompt) = Some bytes"
    by blast
  then have g: "get_cache_key fs audio_path model language prompt
                  = Inr (take 16 (hexdigest (sha256 bytes)))"
    by (simp add: get_cache_key_def)
  from b have b': "encode (audio_path @ [0x7C]
                    @ (case fs audio_path of None \<Rightarrow> [] | Some t \<Rightarrow> map of_char t) @ [0x7C]
                    @ model @ [0x7C] @ or_empty language @ [0x7C] @ or_empty prompt) = Some bytes"
    by (simp add: key_data_def)
  from b' g key_length[of bytes] key_chars[of bytes]
  show "\<exists>bytes key.
          encode (audio_path @ [0x7C]
                    @ (case fs audio_path of None \<Rightarrow> [] | Some t \<Rightarrow> map of_char t) @ [0x7C]
                    @ model @ [0x7C] @ or_empty language @ [0x7C] @ or_empty prompt) = Some bytes
          \<and> key = take 16 (hexdigest (sha256 bytes))
          \<and> get_cache_key fs audio_path model language prompt = Inr key
          \<and> length key = 16 \<and> set key \<subseteq> set ''0123456789abcdef''"
    by blast
next
  assume "fs audio_path = None"
  then show "key_data fs audio_path model language prompt =
           audio_path @ [0x7C] @ [] @ [0x7C] @ model @ [0x7C] @ or_empty language
             @ [0x7C] @ or_empty prompt"
    by (simp add: key_data_def)
next
  fix fs' :: file_times
  assume "fs' audio_path = fs audio_path"
  then have "key_data fs' audio_path model language prompt = key_data fs audio_path model language prompt"
    by (rule key_data_same_time)
  then show "get_cache_key fs' audio_path model language prompt
           = get_cache_key fs audio_path model language prompt"
    by (simp add: get_cache_key_def)
next
  show "get_cache_key fs audio_path model None prompt = get_cache_key fs audio_path model (Some []) prompt"
    by (simp add: get_cache_key_def key_data_def or_empty_def)
next
  show "get_cache_key fs audio_path model language None = get_cache_key fs audio_path model language (Some [])"
    by (simp add: get_cache_key_def key_data_def or_empty_def)
qed

theorem cache_key_derivation_witness:
  "list_all (\<lambda>c. \<not> is_surrogate c)
      (map of_char ''/a.m4a'' @ map of_char ''whisper-1''
         @ or_empty (Some (map of_char ''pt'')) @ or_empty None)
   \<and> (\<exists>key. get_cache_key one_file (map of_char ''/a.m4a'') (map of_char ''whisper-1'')
                (Some (map of_char ''pt'')) None = Inr key
          \<and> length key = 16 \<and> set key \<subseteq> set ''0123456789abcdef'')
   \<and> no_files (map of_char ''/a.m4a'') = None
   \<and> key_data no_files (map of_char ''/a.m4a'') (map of_char ''whisper-1'')
         (Some (map of_char ''pt'')) None = map of_char ''/a.m4a||whisper-1|pt|''"
proof -
  let ?p = "map of_char ''/a.m4a'' :: pystr"
  let ?m = "map of_char ''whisper-1'' :: pystr"
  let ?l = "Some (map of_char ''pt'') :: pystr option"
  note T = cache_key_derivation[of ?p ?m ?l None]
  have h: "\<forall>c\<in>set (?p @ ?m @ or_empty ?l @ or_empty None). \<not> is_surrogate c"
    by (simp add: or_empty_def is_surrogate_def)
  from T[of one_file, THEN conjunct1, THEN mp, OF h]
  have k: "\<exists>key. get_cache_key one_file ?p ?m ?l None = Inr key
          \<and> length key = 16 \<and> set key \<subseteq> set ''0123456789abcdef''"
    by blast
  have n: "no_files ?p = None" by (simp add: no_files_def)
  from T[of no_files, THEN conjunct2, THEN conjunct1, rule_format, OF n]
  have d: "key_data no_files ?p ?m ?l None = map of_char ''/a.m4a||whisper-1|pt|''"
    by (simp add: or_empty_def)
  from h have h': "list_all (\<lambda>c. \<not> is_surrogate c) (?p @ ?m @ or_empty ?l @ or_empty None)"
    by (simp only: list_all_iff)
  show ?thesis by (intro conjI) (fact h' k n d)+
qed

text \<open>
  C5 as the claim states it fails: the function does not return for every input. A prompt
  that holds the lone surrogate U+D800 makes \<^verbatim>\<open>key_data.encode()\<close> raise
  \<^verbatim>\<open>UnicodeEncodeError\<close>.
\<close>

theorem cache_key_derivation_counterexample:
  "get_cache_key no_files [0x2F, 0x61] [0x6D] None (Some [0xD800]) = Inl UnicodeEncodeError"
  by (simp add: get_cache_key_def key_data_def no_files_def or_empty_def utf8_char_def
        is_surrogate_def)

section \<open>Properties of the compression planner\<close>



lemma compress_with_no_duration:
  assumes "st_size m = Some bytes" and "target_mb < real bytes / (1024 * 1024)"
    and "get_audio_duration m \<le> 0"
  shows "compress_with msg m audio_path target_mb = (Inl (ValueError msg), [])"
  using assms by (simp add: compress_with_def)



text \<open>
  C7. When the file is larger than the target and the duration is unknown (the probe
  failed) or not positive, \<^verbatim>\<open>compress_audio_for_openai\<close> raises the error with the
  message about the duration, which is neither the error of a failed encoder run nor a
  time-out; nothing has been done to the outside by then: no directory made, no encoder run.
\<close>

theorem duration_unknown_fails:
  assumes "st_size m = Some bytes" and "target_mb < real bytes / (1024 * 1024)"
    and "probe m = None \<or> (\<exists>d. probe m = Some d \<and> d \<le> 0)"
  shows "compress_audio_for_openai m audio_path target_mb
           = (Inl (ValueError ''Could not determine audio duration for compression''), [])
    \<and> (\<forall>err. ValueError ''Could not determine audio duration for compression''
                 \<noteq> ValueError (''Compression failed: '' @ err))
    \<and> ValueError ''Could not determine audio duration for compression'' \<noteq> TimeoutExpired
    \<and> ValueError ''Could not determine audio duration for compression'' \<noteq> OSError"
proof -
  from assms(3) have "get_audio_duration m \<le> 0"
    by (auto simp: get_audio_duration_def)
  with assms(1,2) have "compress_audio_for_openai m audio_path target_mb
           = (Inl (ValueError ''Could not determine audio duration for compression''), [])"
    unfolding compress_audio_for_openai_def by (rule compress_with_no_duration)
  then show ?thesis by simp
qed

theorem duration_unknown_fails_witness:
  "st_size \<lparr>st_size = Some 90000000, probe = None, ffmpeg = Exited 0 [],
         compressed_path = ''/tmp/benchmark_compressed/compressed_a.m4a''\<rparr> = Some 90000000
   \<and> (24::real) < real 90000000 / (1024 * 1024)
   \<and> compress_audio_for_openai
        \<lparr>st_size = Some 90000000, probe = None, ffmpeg = Exited 0 [],
         compressed_path = ''/tmp/benchmark_compressed/compressed_a.m4a''\<rparr> ''/a.m4a'' 24
       = (Inl (ValueError ''Could not determine audio duration for compression''), [])
   \<and> compress_audio_for_openai
        \<lparr>st_size = Some 90000000, probe = Some 0, ffmpeg = Exited 0 [],
         compressed_path = ''/tmp/benchmark_compressed/compressed_a.m4a''\<rparr> ''/a.m4a'' 24
       = (Inl (ValueError ''Could not determine audio duration for compression''), [])"
proof -
  let ?m = "\<lparr>st_size = Some 90000000, probe = None, ffmpeg = Exited 0 [],
         compressed_path = ''/tmp/benchmark_compressed/compressed_a.m4a''\<rparr>"
  let ?z = "\<lparr>st_size = Some 90000000, probe = Some 0, ffmpeg = Exited 0 [],
         compressed_path = ''/tmp/benchmark_compressed/compressed_a.m4a''\<rparr>"
  have s: "st_size ?m = Some 90000000" by simp
  have s': "st_size ?z = Some 90000000" by simp
  have b: "(24::real) < real 90000000 / (1024 * 1024)" by simp
  have p: "probe ?m = None \<or> (\<exists>d. probe ?m = Some d \<and> d \<le> 0)" by simp
  have p': "probe ?z = None \<or> (\<exists>d. probe ?z = Some d \<and> d \<le> 0)" by simp
  from duration_unknown_fails[OF s b p, of "''/a.m4a''", THEN conjunct1]
  have r: "compress_audio_for_openai ?m ''/a.m4a'' 24
       = (Inl (ValueError ''Could not determine audio duration for compression''), [])" .
  from duration_unknown_fails[OF s' b p', of "''/a.m4a''", THEN conjunct1]
  have r': "compress_audio_for_openai ?z ''/a.m4a'' 24
       = (Inl (ValueError ''Could not determine audio duration for compression''), [])" .
  show ?thesis by (intro conjI) (fact s b r r')+
qed

end
